theory Spec2Isabelle
  imports Complex_Main "HOL-Library.Product_Lexorder"
begin

section \<open>Characters and the string methods of the source\<close>

text \<open>
  The parser works on Python \<open>str\<close> values. A string is modelled as a \<open>string\<close>
  (a list of 8-bit characters) and the character predicates are those of Python on the
  ASCII range: every character from 128 on is taken as a symbol without case that is
  neither a digit nor white space.
\<close>

definition is_digit :: "char \<Rightarrow> bool" where
  "is_digit c = (let n = (of_char c :: nat) in 48 \<le> n \<and> n \<le> 57)"

definition is_upper :: "char \<Rightarrow> bool" where
  "is_upper c = (let n = (of_char c :: nat) in 65 \<le> n \<and> n \<le> 90)"

definition is_lower :: "char \<Rightarrow> bool" where
  "is_lower c = (let n = (of_char c :: nat) in 97 \<le> n \<and> n \<le> 122)"

text \<open>\<open>str.isspace\<close> on ASCII: space, \<open>\t \n \v \f \r\<close> and the separators 28 to 31.\<close>

definition is_space :: "char \<Rightarrow> bool" where
  "is_space c = (let n = (of_char c :: nat) in n = 32 \<or> (9 \<le> n \<and> n \<le> 13) \<or> (28 \<le> n \<and> n \<le> 31))"

text \<open>The word characters of \<open>\b\<close> and \<open>\w\<close>: letters, digits and the underscore.\<close>

definition is_word :: "char \<Rightarrow> bool" where
  "is_word c = (is_digit c \<or> is_upper c \<or> is_lower c \<or> c = CHR ''_'')"

definition upper_char :: "char \<Rightarrow> char" where
  "upper_char c = (if is_lower c then char_of ((of_char c :: nat) - 32) else c)"

definition lower_char :: "char \<Rightarrow> char" where
  "lower_char c = (if is_upper c then char_of ((of_char c :: nat) + 32) else c)"

definition upper :: "string \<Rightarrow> string" where
  "upper s = map upper_char s"

definition lower :: "string \<Rightarrow> string" where
  "lower s = map lower_char s"

text \<open>\<open>str.capitalize\<close>: the first character upper-cased, the others lower-cased.\<close>

definition capitalize :: "string \<Rightarrow> string" where
  "capitalize s = (case s of [] \<Rightarrow> [] | c # cs \<Rightarrow> upper_char c # lower cs)"

text \<open>\<open>s.strip()\<close> and \<open>s.strip(chars)\<close> remove at both ends.\<close>

definition strip_pred :: "(char \<Rightarrow> bool) \<Rightarrow> string \<Rightarrow> string" where
  "strip_pred P s = rev (dropWhile P (rev (dropWhile P s)))"

definition py_strip :: "string \<Rightarrow> string" where
  "py_strip s = strip_pred is_space s"

definition strip_chars :: "string \<Rightarrow> string \<Rightarrow> string" where
  "strip_chars cs s = strip_pred (\<lambda>c. c \<in> set cs) s"

text \<open>\<open>re.sub(r"\s+", " ", s)\<close>: every maximal run of white space becomes one space.\<close>

function sub_spaces :: "string \<Rightarrow> string" where
  "sub_spaces [] = []"
| "sub_spaces (c # cs) =
     (if is_space c then CHR '' '' # sub_spaces (dropWhile is_space cs)
      else c # sub_spaces cs)"
  by pat_completeness auto
termination
  by (relation "measure length") (auto simp: length_dropWhile_le less_Suc_eq_le)

text \<open>\<open>s.split()\<close>: the maximal runs of characters that are not white space.\<close>

function py_split :: "string \<Rightarrow> string list" where
  "py_split s =
     (case dropWhile is_space s of
        [] \<Rightarrow> []
      | c # cs \<Rightarrow> (c # takeWhile (\<lambda>x. \<not> is_space x) cs)
                   # py_split (dropWhile (\<lambda>x. \<not> is_space x) cs))"
  by pat_completeness auto
termination
proof (relation "measure length")
  show "wf (measure length)" by simp
next
  fix s :: string and c cs
  assume h: "dropWhile is_space s = c # cs"
  have "length (dropWhile (\<lambda>x. \<not> is_space x) cs) \<le> length cs"
    by (rule length_dropWhile_le)
  moreover have "length (c # cs) \<le> length s"
    using length_dropWhile_le [of is_space s] h by simp
  ultimately show "(dropWhile (\<lambda>x. \<not> is_space x) cs, s) \<in> measure length"
    by simp
qed

declare py_split.simps [simp del]

text \<open>\<open>" ".join(out)\<close>.\<close>

fun join_sp :: "string list \<Rightarrow> string" where
  "join_sp [] = []"
| "join_sp [w] = w"
| "join_sp (w # v # ws) = w @ CHR '' '' # join_sp (v # ws)"

section \<open>The name normalizer\<close>

definition kept :: "string list" where
  "kept = [''U.P.'', ''NCT'', ''SLP'', ''S.L.P.'', ''IA'', ''I.A.'', ''Ltd.'', ''LTD.'',
           ''CBI'', ''GST'', ''W.P.(C)'', ''T.P.(C)'', ''T.P.(Crl.)'']"

definition lowers :: "string list" where
  "lowers = [''and'', ''of'', ''the'', ''by'', ''on'', ''for'', ''to'', ''in'', ''vs'',
             ''vs.'', ''alias'', ''@'']"

text \<open>The test of line 29: the token goes to the output as it is.\<close>

definition preserved :: "string \<Rightarrow> bool" where
  "preserved w =
     (list_ex is_digit w \<or> (CHR ''.'' \<in> set w \<and> upper w = w) \<or> upper w \<in> set kept)"

text \<open>The body of the loop of lines 28 to 33, for the token \<open>w\<close> at index \<open>i\<close>.\<close>

definition title_token :: "nat \<Rightarrow> string \<Rightarrow> string" where
  "title_token i w =
     (if preserved w then w
      else (let base = lower w in
            if base \<in> set lowers \<and> i \<noteq> 0 then base else capitalize base))"

text \<open>The list \<open>out\<close> when the loop has ended.\<close>

definition title_tokens :: "string \<Rightarrow> string list" where
  "title_tokens s =
     map (\<lambda>(i, w). title_token i w) (enumerate 0 (py_split (sub_spaces (py_strip s))))"

definition smart_title :: "string \<Rightarrow> string" where
  "smart_title s = strip_chars '' ,.-'' (join_sp (title_tokens s))"

section \<open>Regular expressions\<close>

text \<open>
  The patterns of the source use literals, character classes, greedy repetition of a
  class, optional parts, alternatives, \<open>^\<close>, \<open>$\<close> and \<open>\b\<close>. A position in
  the subject is the character before it (none at the start) and the text still to be
  read. Running a pattern from a position gives the positions where it can end, in the
  order in which Python's backtracking matcher tries them, so the head of the list is the
  match that Python reports.
\<close>

type_synonym pos = "char option \<times> string"

datatype rx =
    Lit string
  | Cls "char \<Rightarrow> bool"
  | Star "char \<Rightarrow> bool"
  | Plus "char \<Rightarrow> bool"
  | Rep nat nat "char \<Rightarrow> bool"
  | Opt rx
  | Seq rx rx
  | Alt rx rx
  | Bol
  | Eol
  | WordB

definition chr_eq :: "bool \<Rightarrow> char \<Rightarrow> char \<Rightarrow> bool" where
  "chr_eq ic a c = (if ic then lower_char a = lower_char c else a = c)"

definition cls_ok :: "bool \<Rightarrow> (char \<Rightarrow> bool) \<Rightarrow> char \<Rightarrow> bool" where
  "cls_ok ic P c = (P c \<or> (ic \<and> (P (lower_char c) \<or> P (upper_char c))))"

fun lit :: "bool \<Rightarrow> string \<Rightarrow> pos \<Rightarrow> pos list" where
  "lit ic [] q = [q]"
| "lit ic (a # as) (p, []) = []"
| "lit ic (a # as) (p, c # cs) = (if chr_eq ic a c then lit ic as (Some c, cs) else [])"

fun many :: "(char \<Rightarrow> bool) \<Rightarrow> pos \<Rightarrow> pos list" where
  "many P (p, []) = [(p, [])]"
| "many P (p, c # cs) = (if P c then many P (Some c, cs) @ [(p, c # cs)] else [(p, c # cs)])"

fun exactly :: "nat \<Rightarrow> (char \<Rightarrow> bool) \<Rightarrow> pos \<Rightarrow> pos list" where
  "exactly 0 P q = [q]"
| "exactly (Suc n) P (p, []) = []"
| "exactly (Suc n) P (p, c # cs) = (if P c then exactly n P (Some c, cs) else [])"

fun at_most :: "nat \<Rightarrow> (char \<Rightarrow> bool) \<Rightarrow> pos \<Rightarrow> pos list" where
  "at_most 0 P q = [q]"
| "at_most (Suc n) P (p, []) = [(p, [])]"
| "at_most (Suc n) P (p, c # cs) =
     (if P c then at_most n P (Some c, cs) @ [(p, c # cs)] else [(p, c # cs)])"

definition word_before :: "pos \<Rightarrow> bool" where
  "word_before q = (case fst q of None \<Rightarrow> False | Some c \<Rightarrow> is_word c)"

definition word_after :: "pos \<Rightarrow> bool" where
  "word_after q = (case snd q of [] \<Rightarrow> False | c # _ \<Rightarrow> is_word c)"

fun run :: "bool \<Rightarrow> rx \<Rightarrow> pos \<Rightarrow> pos list" where
  "run ic (Lit s) q = lit ic s q"
| "run ic (Cls P) q = exactly 1 (cls_ok ic P) q"
| "run ic (Star P) q = many (cls_ok ic P) q"
| "run ic (Plus P) q = concat (map (many (cls_ok ic P)) (exactly 1 (cls_ok ic P) q))"
| "run ic (Rep m n P) q = concat (map (at_most (n - m) (cls_ok ic P)) (exactly m (cls_ok ic P) q))"
| "run ic (Opt r) q = run ic r q @ [q]"
| "run ic (Seq r1 r2) q = concat (map (run ic r2) (run ic r1 q))"
| "run ic (Alt r1 r2) q = run ic r1 q @ run ic r2 q"
| "run ic Bol q = (if fst q = None then [q] else [])"
| "run ic Eol q = (if snd q = [] \<or> snd q = [CHR 0x0A] then [q] else [])"
| "run ic WordB q = (if word_before q \<noteq> word_after q then [q] else [])"

definition cat :: "rx list \<Rightarrow> rx" where
  "cat rs = foldr Seq rs (Lit [])"

definition alts :: "rx list \<Rightarrow> rx" where
  "alts rs = foldr Alt (butlast rs) (last rs)"

text \<open>\<open>pattern.match(s)\<close>, \<open>re.fullmatch(pattern, s)\<close> and \<open>pattern.search(s)\<close>, as truth values.\<close>

definition re_match :: "bool \<Rightarrow> rx \<Rightarrow> string \<Rightarrow> bool" where
  "re_match ic r s = (run ic r (None, s) \<noteq> [])"

definition re_fullmatch :: "bool \<Rightarrow> rx \<Rightarrow> string \<Rightarrow> bool" where
  "re_fullmatch ic r s = list_ex (\<lambda>q. snd q = []) (run ic r (None, s))"

fun search_at :: "bool \<Rightarrow> rx \<Rightarrow> char option \<Rightarrow> string \<Rightarrow> bool" where
  "search_at ic r p [] = (run ic r (p, []) \<noteq> [])"
| "search_at ic r p (c # cs) = (run ic r (p, c # cs) \<noteq> [] \<or> search_at ic r (Some c) cs)"

definition re_search :: "bool \<Rightarrow> rx \<Rightarrow> string \<Rightarrow> bool" where
  "re_search ic r s = search_at ic r None s"

text \<open>
  A pattern with one capturing group is given as the part before the group, the group and
  the part after it; \<open>group1\<close> lists the text of the group for every way to match, in
  the matcher's order.
\<close>

definition group1 :: "bool \<Rightarrow> rx \<Rightarrow> rx \<Rightarrow> rx \<Rightarrow> pos \<Rightarrow> string list" where
  "group1 ic pre grp post q =
     [take (length (snd a) - length (snd b)) (snd a).
        a \<leftarrow> run ic pre q, b \<leftarrow> run ic grp a, e \<leftarrow> run ic post b]"

definition match_group1 :: "bool \<Rightarrow> rx \<Rightarrow> rx \<Rightarrow> rx \<Rightarrow> string \<Rightarrow> string option" where
  "match_group1 ic pre grp post s =
     (case group1 ic pre grp post (None, s) of [] \<Rightarrow> None | g # _ \<Rightarrow> Some g)"

fun search_group1_at :: "bool \<Rightarrow> rx \<Rightarrow> rx \<Rightarrow> rx \<Rightarrow> char option \<Rightarrow> string \<Rightarrow> string option" where
  "search_group1_at ic pre grp post p [] =
     (case group1 ic pre grp post (p, []) of [] \<Rightarrow> None | g # _ \<Rightarrow> Some g)"
| "search_group1_at ic pre grp post p (c # cs) =
     (case group1 ic pre grp post (p, c # cs) of
        [] \<Rightarrow> search_group1_at ic pre grp post (Some c) cs
      | g # _ \<Rightarrow> Some g)"

definition search_group1 :: "bool \<Rightarrow> rx \<Rightarrow> rx \<Rightarrow> rx \<Rightarrow> string \<Rightarrow> string option" where
  "search_group1 ic pre grp post s = search_group1_at ic pre grp post None s"

section \<open>The patterns of the parser and the line classifier\<close>

text \<open>\<open>SERIAL_RE = ^\s*(\d{1,3}(?:\.\d+)?)\b\<close>; the result is \<open>m.group(1)\<close> of \<open>SERIAL_RE.match(line)\<close>.\<close>

definition SERIAL_RE :: "string \<Rightarrow> string option" where
  "SERIAL_RE line =
     match_group1 False
       (Seq Bol (Star is_space))
       (Seq (Rep 1 3 is_digit) (Opt (Seq (Lit ''.'') (Plus is_digit))))
       WordB
       line"

text \<open>\<open>COURT_NUM_RE = COURT\s*NO\.?\s*[:\-]?\s*(\d+)\<close>, ignoring case; \<open>m.group(1)\<close> of a search.\<close>

definition COURT_NUM_RE :: "string \<Rightarrow> string option" where
  "COURT_NUM_RE txt =
     search_group1 True
       (cat [Lit ''COURT'', Star is_space, Lit ''NO'', Opt (Lit ''.''), Star is_space,
             Opt (Cls (\<lambda>c. c \<in> set '':-'')), Star is_space])
       (Plus is_digit)
       (Lit [])
       txt"

text \<open>\<open>CHIEF_JUSTICE_RE = CHIEF\s+JUSTICE'?S\s+COURT\<close>, ignoring case.\<close>

definition CHIEF_JUSTICE_RE :: rx where
  "CHIEF_JUSTICE_RE =
     cat [Lit ''CHIEF'', Plus is_space, Lit ''JUSTICE'', Opt (Lit [CHR 0x27]), Lit ''S'',
          Plus is_space, Lit ''COURT'']"

text \<open>\<open>VERSUS_RE = ^\s*versus\.?\s*$\<close>, ignoring case.\<close>

definition VERSUS_RE :: rx where
  "VERSUS_RE = cat [Bol, Star is_space, Lit ''versus'', Opt (Lit ''.''), Star is_space, Eol]"

definition IGNORE_HEAD :: rx where
  "IGNORE_HEAD =
     alts [Lit ''SUPREME COURT OF INDIA'', Lit ''IT WILL BE APPRECIATED'', Lit ''LISTED BEFORE'',
           Lit ''DAILY CAUSE LIST'', Lit ''NOTE'', Lit ''MISCELLANEOUS HEARING'',
           Lit ''PUBLIC INTEREST LITIGATIONS'',
           cat [Lit ''SNo.'', Star is_space, Lit ''Case No.''],
           Lit ''Petitioner/Respondent'']"

definition is_meta_line :: "string \<Rightarrow> bool" where
  "is_meta_line line =
     (if re_search True IGNORE_HEAD line then True
      else if re_search False (Seq WordB (Lit ''No.'')) line then True
      else if re_fullmatch False
                (Seq (Plus (\<lambda>c. c \<in> set ''IVXLC'')) (Opt (Seq (Lit ''-'') (Cls is_upper)))) line
        then True
      else if re_fullmatch False (Plus (\<lambda>c. is_digit c \<or> c \<in> set ''/().-'')) line then True
      else if re_search False (cat [WordB, Lit ''PIL'', Alt (Lit ''-W'') WordB]) line then True
      else if re_search True
                (alts [Lit ''IA No.'', Lit ''FOR ADMISSION'', Lit ''EXEMPTION FROM FILING'',
                       Lit ''CONDONATION OF DELAY'', Lit ''O.T.'']) line
        then True
      else if re_fullmatch False (Lit ''Connected'') line then True
      else False)"

section \<open>Pages as the text extraction engine delivers them\<close>

text \<open>
  A page gives its whole text, its blocks \<open>(x0, y0, x1, y1, text)\<close>, its words
  \<open>(x0, y0, x1, y1, word)\<close> and the size of its rectangle. Coordinates are Python floats;
  they are modelled as rationals, so \<open>0.35\<close>, \<open>0.70\<close> and \<open>round(x, 1)\<close> are exact here.
  A document is the list of its pages.
\<close>

type_synonym block = "rat \<times> rat \<times> rat \<times> rat \<times> string"

record pdf_page =
  page_text :: string
  page_blocks :: "block list"
  page_words :: "block list"
  rect_width :: rat
  rect_height :: rat

text \<open>\<open>int(m.group(1))\<close> on a run of digits.\<close>

definition int_of_digits :: "string \<Rightarrow> int" where
  "int_of_digits g = int (foldl (\<lambda>n c. 10 * n + ((of_char c :: nat) - 48)) 0 g)"

fun scan_blocks :: "block list \<Rightarrow> int option" where
  "scan_blocks [] = None"
| "scan_blocks ((x0, y0, x1, y1, t) # bs) =
     (if y1 > 180 then None
      else if re_search True CHIEF_JUSTICE_RE t then Some 1
      else (case COURT_NUM_RE t of
              Some g \<Rightarrow> Some (int_of_digits g)
            | None \<Rightarrow> scan_blocks bs))"

definition detect_court_number :: "pdf_page \<Rightarrow> int option" where
  "detect_court_number pg =
     (let txt = page_text pg in
      if re_search True CHIEF_JUSTICE_RE txt then Some 1
      else (case COURT_NUM_RE txt of
              Some g \<Rightarrow> Some (int_of_digits g)
            | None \<Rightarrow> scan_blocks (page_blocks pg)))"

text \<open>\<open>s.startswith(t)\<close> and \<open>t in s\<close>.\<close>

fun startswith :: "string \<Rightarrow> string \<Rightarrow> bool" where
  "startswith s [] = True"
| "startswith [] (a # as) = False"
| "startswith (c # cs) (a # as) = (c = a \<and> startswith cs as)"

fun contains :: "string \<Rightarrow> string \<Rightarrow> bool" where
  "contains [] t = (t = [])"
| "contains (c # cs) t = (startswith (c # cs) t \<or> contains cs t)"

definition page_split_x :: "pdf_page \<Rightarrow> rat" where
  "page_split_x pg =
     (let ws = page_words pg; h = rect_height pg;
          adv = filter (\<lambda>(x0, y0, x1, y1, w).
                   startswith (lower w) ''advocate'' \<and> y0 < h * (35 / 100)) ws
      in if adv \<noteq> [] then fold min (map (\<lambda>(x0, y0, x1, y1, w). x0) (tl adv)) (fst (hd adv))
         else (let pr = filter (\<lambda>(x0, y0, x1, y1, w).
                          contains (lower w) ''petitioner/respondent'' \<and> y0 < h * (35 / 100)) ws
               in if pr \<noteq> []
                  then fold max (map (\<lambda>(x0, y0, x1, y1, w). x1) (tl pr))
                         ((\<lambda>(x0, y0, x1, y1, w). x1) (hd pr)) + 10
                  else rect_width pg * (70 / 100)))"

text \<open>\<open>round(x, 1)\<close>: to one decimal, a tie going to the even neighbour.\<close>

definition round_half_even :: "rat \<Rightarrow> int" where
  "round_half_even x =
     (let f = \<lfloor>x\<rfloor>; d = x - of_int f in
      if d < 1 / 2 then f else if 1 / 2 < d then f + 1 else if even f then f else f + 1)"

definition round1 :: "rat \<Rightarrow> rat" where
  "round1 x = of_int (round_half_even (x * 10)) / 10"

text \<open>\<open>blocks.sort(key=lambda b: (round(b[1],1), round(b[0],1)))\<close>, a stable sort.\<close>

definition sort_blocks :: "block list \<Rightarrow> block list" where
  "sort_blocks bs = sort_key (\<lambda>(x0, y0, x1, y1, t). (round1 y0, round1 x0)) bs"

text \<open>\<open>text.splitlines()\<close>; the line boundaries of ASCII are 10 to 13 and 28 to 30.\<close>

definition is_linebreak :: "char \<Rightarrow> bool" where
  "is_linebreak c = (let n = (of_char c :: nat) in (10 \<le> n \<and> n \<le> 13) \<or> (28 \<le> n \<and> n \<le> 30))"

fun splitlines_from :: "string \<Rightarrow> string \<Rightarrow> string list" where
  "splitlines_from acc [] = (if acc = [] then [] else [rev acc])"
| "splitlines_from acc [c] = (if is_linebreak c then [rev acc] else [rev (c # acc)])"
| "splitlines_from acc (c # d # cs) =
     (if c = CHR 0x0D \<and> d = CHR 0x0A then rev acc # splitlines_from [] cs
      else if is_linebreak c then rev acc # splitlines_from [] (d # cs)
      else splitlines_from (c # acc) (d # cs))"

definition splitlines :: "string \<Rightarrow> string list" where
  "splitlines s = splitlines_from [] s"

section \<open>The parser\<close>

text \<open>
  An entry is the dictionary of lines 106 and 107. \<open>None\<close> is the Python \<open>None\<close>.
\<close>

record entry =
  court :: "int option"
  serial :: string
  petitioner :: "string option"
  respondent :: "string option"
  page :: nat

text \<open>
  The state of the loop over the lines of a page. \<open>current\<close> is a reference to a dictionary
  that is also an element of \<open>items\<close>: it is modelled as the index of that element, and
  an assignment through \<open>current\<close> updates the list there.
\<close>

record pstate =
  items :: "entry list"
  current :: "nat option"
  capture_resp :: bool

text \<open>Truth of an optional integer and of an optional string, as \<open>if x\<close> sees them.\<close>

definition truthy_int :: "int option \<Rightarrow> bool" where
  "truthy_int x = (case x of None \<Rightarrow> False | Some n \<Rightarrow> n \<noteq> 0)"

definition truthy_str :: "string option \<Rightarrow> bool" where
  "truthy_str x = (case x of None \<Rightarrow> False | Some s \<Rightarrow> s \<noteq> [])"

text \<open>The body of the loop of line 98, for one raw line of a block.\<close>

definition process_line :: "int option \<Rightarrow> nat \<Rightarrow> bool \<Rightarrow> pstate \<Rightarrow> string \<Rightarrow> pstate" where
  "process_line crt pno is_left st raw =
     (let line = py_strip raw in
      if line = [] then st
      else (case (if is_left then SERIAL_RE line else None) of
              Some m \<Rightarrow>
                st\<lparr>items := items st @
                             [\<lparr>court = crt, serial = m, petitioner = None, respondent = None,
                               page = pno + 1\<rparr>],
                   current := Some (length (items st)),
                   capture_resp := False\<rparr>
            | None \<Rightarrow>
                if is_meta_line line then st
                else if re_match True VERSUS_RE line then st\<lparr>capture_resp := True\<rparr>
                else (case current st of
                        None \<Rightarrow> st
                      | Some i \<Rightarrow>
                          if \<not> is_left then st
                          else if petitioner (items st ! i) = None \<and> \<not> capture_resp st
                          then st\<lparr>items := (items st)
                                     [i := (items st ! i)\<lparr>petitioner := Some (smart_title line)\<rparr>]\<rparr>
                          else if capture_resp st \<and> respondent (items st ! i) = None
                          then st\<lparr>items := (items st)
                                     [i := (items st ! i)\<lparr>respondent := Some (smart_title line)\<rparr>],
                                  capture_resp := False\<rparr>
                          else st)))"

definition process_block :: "int option \<Rightarrow> nat \<Rightarrow> rat \<Rightarrow> pstate \<Rightarrow> block \<Rightarrow> pstate" where
  "process_block crt pno split_x st b =
     (case b of (x0, y0, x1, y1, t) \<Rightarrow>
        foldl (process_line crt pno (x0 < split_x)) st (splitlines t))"

text \<open>
  The body of the loop over the pages, lines 85 to 126: from the items and the last court
  before the page to those after it.
\<close>

definition process_page :: "entry list \<times> int option \<Rightarrow> nat \<times> pdf_page \<Rightarrow> entry list \<times> int option" where
  "process_page acc np =
     (case acc of (its, last_court) \<Rightarrow> case np of (pno, pg) \<Rightarrow>
        let d = detect_court_number pg;
            crt = (if truthy_int d then d else last_court);
            last_court' = (if truthy_int crt then crt else last_court);
            split_x = page_split_x pg;
            bs = sort_blocks (page_blocks pg);
            st = foldl (process_block crt pno split_x)
                   \<lparr>items = its, current = None, capture_resp = False\<rparr> bs
        in (items st, last_court'))"

definition parse_loop :: "pdf_page list \<Rightarrow> entry list \<times> int option" where
  "parse_loop doc = foldl process_page ([], None) (enumerate 0 doc)"

text \<open>The list \<open>items\<close> when the loop over the pages has ended.\<close>

definition all_items :: "pdf_page list \<Rightarrow> entry list" where
  "all_items doc = fst (parse_loop doc)"

text \<open>The filter of line 128.\<close>

definition is_complete :: "entry \<Rightarrow> bool" where
  "is_complete it = (truthy_int (court it) \<and> truthy_str (petitioner it) \<and> truthy_str (respondent it))"

definition parse_pdf :: "pdf_page list \<Rightarrow> entry list" where
  "parse_pdf doc = filter is_complete (all_items doc)"

section \<open>The index and the lookups\<close>

text \<open>\<open>str(n)\<close> for an integer, and the text an f-string gives for a field that may be \<open>None\<close>.\<close>

function str_nat :: "nat \<Rightarrow> string" where
  "str_nat n =
     (if n < 10 then [char_of (48 + n)]
      else str_nat (n div 10) @ [char_of (48 + n mod 10)])"
  by pat_completeness auto
termination
  by (relation "measure id") auto

declare str_nat.simps [simp del]

definition str_int :: "int \<Rightarrow> string" where
  "str_int i = (if i < 0 then CHR ''-'' # str_nat (nat (- i)) else str_nat (nat i))"

definition str_court :: "int option \<Rightarrow> string" where
  "str_court x = (case x of None \<Rightarrow> ''None'' | Some i \<Rightarrow> str_int i)"

definition str_field :: "string option \<Rightarrow> string" where
  "str_field x = (case x of None \<Rightarrow> ''None'' | Some s \<Rightarrow> s)"

text \<open>The key of line 133.\<close>

definition entry_key :: "entry \<Rightarrow> string" where
  "entry_key it = str_court (court it) @ ''/'' @ serial it"

text \<open>
  The dictionary \<open>idx\<close> keeps the order in which its keys were inserted; it is modelled as
  the list of its pairs in that order, and \<open>idx.get(r)\<close> is \<open>map_of idx r\<close>.
\<close>

type_synonym index = "(string \<times> entry) list"

fun build_index_from :: "index \<Rightarrow> entry list \<Rightarrow> index" where
  "build_index_from idx [] = idx"
| "build_index_from idx (it # its) =
     build_index_from
       (if map_of idx (entry_key it) = None then idx @ [(entry_key it, it)] else idx) its"

definition build_index :: "entry list \<Rightarrow> index" where
  "build_index its = build_index_from [] its"

definition format_line :: "entry \<Rightarrow> string" where
  "format_line it =
     str_court (court it) @ ''/'' @ serial it @ '' - '' @ str_field (petitioner it)
       @ '' Vs '' @ str_field (respondent it)"

text \<open>
  The loop of lines 168 to 170, and of lines 19 to 21 of the front end: one output line
  for every reference asked for. A dictionary of an entry is never empty, so \<open>if it\<close>
  only tells a hit from \<open>None\<close>.
\<close>

definition lookup_line :: "index \<Rightarrow> string \<Rightarrow> string" where
  "lookup_line idx r =
     (case map_of idx r of Some it \<Rightarrow> format_line it | None \<Rightarrow> r @ '' - NOT FOUND'')"

definition lookup_lines :: "index \<Rightarrow> string list \<Rightarrow> string list" where
  "lookup_lines idx req = map (lookup_line idx) req"

section \<open>The dump of the whole index\<close>

datatype error = ValueError | KeyError

text \<open>\<open>k.split("/")\<close>.\<close>

fun split_on :: "char \<Rightarrow> string \<Rightarrow> string list" where
  "split_on sep [] = [[]]"
| "split_on sep (c # cs) =
     (if c = sep then [] # split_on sep cs
      else (case split_on sep cs of [] \<Rightarrow> [[c]] | w # ws \<Rightarrow> (c # w) # ws))"

text \<open>
  \<open>int(c)\<close> on a string: white space around it, a sign, then digits, where single
  underscores may stand between digits. Anything else raises \<open>ValueError\<close>.
\<close>

fun digits_ok :: "string \<Rightarrow> bool" where
  "digits_ok [] = False"
| "digits_ok [c] = is_digit c"
| "digits_ok (c # d # cs) =
     (is_digit c \<and> (if d = CHR ''_'' then digits_ok cs else digits_ok (d # cs)))"

definition py_int :: "string \<Rightarrow> int option" where
  "py_int s =
     (let t = py_strip s;
          neg = (t \<noteq> [] \<and> hd t = CHR ''-'');
          body = (if t \<noteq> [] \<and> (hd t = CHR ''-'' \<or> hd t = CHR ''+'') then tl t else t)
      in if digits_ok body
         then Some ((if neg then - 1 else 1) * int_of_digits (filter (\<lambda>c. c \<noteq> CHR ''_'') body))
         else None)"

text \<open>
  \<open>key_fn\<close> of line 153. \<open>float(s)\<close> is the parameter \<open>fl\<close>, a function into any
  linear order that may fail: what is proved of the dump holds for the doubles of Python
  as for exact decimals.
\<close>

definition key_fn :: "(string \<Rightarrow> 'f option) \<Rightarrow> string \<Rightarrow> error + (int \<times> 'f)" where
  "key_fn fl k =
     (case split_on CHR ''/'' k of
        [c, s] \<Rightarrow>
          (case py_int c of
             None \<Rightarrow> Inl ValueError
           | Some ci \<Rightarrow> (case fl s of None \<Rightarrow> Inl ValueError | Some f \<Rightarrow> Inr (ci, f)))
      | _ \<Rightarrow> Inl ValueError)"

text \<open>\<open>sorted(idx.keys(), key=key_fn)\<close>: the keys are computed first, then a stable sort.\<close>

fun keyed :: "(string \<Rightarrow> 'f option) \<Rightarrow> string list \<Rightarrow> error + ((int \<times> 'f) \<times> string) list" where
  "keyed fl [] = Inr []"
| "keyed fl (k # ks) =
     (case key_fn fl k of
        Inl e \<Rightarrow> Inl e
      | Inr v \<Rightarrow> (case keyed fl ks of Inl e \<Rightarrow> Inl e | Inr vs \<Rightarrow> Inr ((v, k) # vs)))"

definition sorted_keys :: "(string \<Rightarrow> 'f::linorder option) \<Rightarrow> index \<Rightarrow> error + string list" where
  "sorted_keys fl idx =
     (case keyed fl (map fst idx) of
        Inl e \<Rightarrow> Inl e
      | Inr vs \<Rightarrow> Inr (map snd (sort_key fst vs)))"

fun print_keys :: "index \<Rightarrow> string list \<Rightarrow> error + string list" where
  "print_keys idx [] = Inr []"
| "print_keys idx (k # ks) =
     (case map_of idx k of
        None \<Rightarrow> Inl KeyError
      | Some it \<Rightarrow>
          (case print_keys idx ks of Inl e \<Rightarrow> Inl e | Inr ls \<Rightarrow> Inr (format_line it # ls)))"

text \<open>The branch \<open>--dump-all\<close> of \<open>main\<close>, lines 152 to 156: the lines printed.\<close>

definition dump_all :: "(string \<Rightarrow> 'f::linorder option) \<Rightarrow> index \<Rightarrow> error + string list" where
  "dump_all fl idx =
     (case sorted_keys fl idx of Inl e \<Rightarrow> Inl e | Inr ks \<Rightarrow> print_keys idx ks)"

text \<open>
  The exact value of a decimal literal \<open>digits\<close> or \<open>digits.digits\<close>, an instance of
  \<open>fl\<close>.
\<close>

definition decimal_literal :: "string \<Rightarrow> bool" where
  "decimal_literal s =
     (let ds = takeWhile is_digit s; r = dropWhile is_digit s in
      ds \<noteq> [] \<and> (r = [] \<or> (hd r = CHR ''.'' \<and> tl r \<noteq> [] \<and> list_all is_digit (tl r))))"

definition float_exact :: "string \<Rightarrow> rat option" where
  "float_exact s =
     (if decimal_literal s
      then (let ds = takeWhile is_digit s; fs = drop (Suc (length ds)) s in
            Some (of_int (int_of_digits ds) + of_int (int_of_digits fs) / 10 ^ length fs))
      else None)"

section \<open>Notions used to state the properties\<close>

text \<open>
  The last known court number after a list of pages: the detection of the last page, in
  page order, whose detected number counts as true (a number other than 0).
\<close>

definition last_known :: "pdf_page list \<Rightarrow> int option" where
  "last_known ps =
     (let ds = filter truthy_int (map detect_court_number ps) in
      if ds = [] then None else last ds)"

text \<open>
  While a page is read, the items are those from before the page followed by the entries
  the page has started; these carry the court and the number of the page, and
  \<open>current\<close> points at one of them.
\<close>

definition page_inv :: "int option \<Rightarrow> nat \<Rightarrow> entry list \<Rightarrow> pstate \<Rightarrow> bool" where
  "page_inv crt pno base st =
     (\<exists>new. items st = base @ new
        \<and> list_all (\<lambda>e. court e = crt \<and> page e = pno + 1) new
        \<and> (case current st of None \<Rightarrow> True | Some i \<Rightarrow> length base \<le> i \<and> i < length base + length new))"

text \<open>
  The serial token of a line, said without a pattern. After leading white space the line
  must begin with a run of one to three digits, and this run must end at a word
  boundary: the line ends there, or the next character is not a letter, a digit or an
  underscore. The token is the run of digits, extended by a period and the run of digits
  after it when there is one and it ends at a word boundary too.
\<close>

definition serial_token :: "string \<Rightarrow> string option" where
  "serial_token line =
     (let t = dropWhile is_space line; ds = takeWhile is_digit t; r = dropWhile is_digit t in
      if ds = [] \<or> 3 < length ds \<or> (r \<noteq> [] \<and> is_word (hd r)) then None
      else (case r of
              [] \<Rightarrow> Some ds
            | c # r' \<Rightarrow>
                (let fs = takeWhile is_digit r'; r2 = dropWhile is_digit r' in
                 if c = CHR ''.'' \<and> fs \<noteq> [] \<and> (r2 = [] \<or> \<not> is_word (hd r2))
                 then Some (ds @ c # fs) else Some ds)))"

text \<open>The position after the longest run of characters of a class.\<close>

fun skip :: "(char \<Rightarrow> bool) \<Rightarrow> pos \<Rightarrow> pos" where
  "skip P (p, []) = (p, [])"
| "skip P (p, c # cs) = (if P c then skip P (Some c, cs) else (p, c # cs))"

text \<open>
  The members of \<open>kept\<close> that an upper-cased token can be equal to: those without a
  lower-case letter.
\<close>

definition kept_upper :: "string list" where
  "kept_upper = [''U.P.'', ''NCT'', ''SLP'', ''S.L.P.'', ''IA'', ''I.A.'', ''LTD.'', ''CBI'',
                 ''GST'', ''W.P.(C)'', ''T.P.(C)'']"

text \<open>
  The first token of the input does not begin, and its last token does not end, with a
  comma, a period or a hyphen: the final \<open>strip\<close> of the normalizer has nothing to
  remove.
\<close>

definition edge_free :: "string \<Rightarrow> bool" where
  "edge_free s =
     (case py_split (sub_spaces (py_strip s)) of
        [] \<Rightarrow> True
      | w # ws \<Rightarrow> hd w \<notin> set '',.-'' \<and> last (last (w # ws)) \<notin> set '',.-'')"

section \<open>Concrete inputs\<close>

text \<open>Two entries with the same court and serial, as lines 106 and 107 build them.\<close>

definition ex_first :: entry where
  "ex_first = \<lparr>court = Some 3, serial = ''10'', petitioner = Some ''Abc Ltd.'',
                respondent = Some ''Xyz'', page = 1\<rparr>"

definition ex_second :: entry where
  "ex_second = \<lparr>court = Some 3, serial = ''10'', petitioner = Some ''Other'',
                 respondent = Some ''Xyz'', page = 2\<rparr>"

text \<open>
  Small pages. Every block starts at \<open>x0 = 0\<close> on a page 100 wide with no words, so the
  split is at 70 and every line is in the left column.
\<close>

definition ex_page_a :: pdf_page where
  "ex_page_a = \<lparr>page_text = ''COURT NO. 2'',
                 page_blocks = [(0, 0, 1, 1, ''5'' @ [CHR 0x0A] @ ''A'' @ [CHR 0x0A] @ ''versus''
                                               @ [CHR 0x0A] @ ''B'')],
                 page_words = [], rect_width = 100, rect_height = 100\<rparr>"

definition ex_page_b :: pdf_page where
  "ex_page_b = \<lparr>page_text = [],
                 page_blocks = [(0, 0, 1, 1, ''6'' @ [CHR 0x0A] @ ''D'' @ [CHR 0x0A] @ ''versus'')],
                 page_words = [], rect_width = 100, rect_height = 100\<rparr>"

definition ex_page_c :: pdf_page where
  "ex_page_c = \<lparr>page_text = [], page_blocks = [(0, 0, 1, 1, ''E'')],
                 page_words = [], rect_width = 100, rect_height = 100\<rparr>"

definition ex_page_zero :: pdf_page where
  "ex_page_zero = \<lparr>page_text = ''COURT NO. 0'', page_blocks = [],
                    page_words = [], rect_width = 100, rect_height = 100\<rparr>"

definition ex_entry5 :: entry where
  "ex_entry5 = \<lparr>court = Some 2, serial = ''5'', petitioner = Some ''A'', respondent = Some ''B'',
                 page = 1\<rparr>"

text \<open>A page with two entries, the serial 10 before the serial 9.5.\<close>

definition ex_page_d :: pdf_page where
  "ex_page_d = \<lparr>page_text = ''COURT NO. 2'',
                 page_blocks = [(0, 0, 1, 1, ''10'' @ [CHR 0x0A] @ ''A'' @ [CHR 0x0A] @ ''versus''
                                               @ [CHR 0x0A] @ ''B'' @ [CHR 0x0A] @ ''9.5''
                                               @ [CHR 0x0A] @ ''D'' @ [CHR 0x0A] @ ''versus''
                                               @ [CHR 0x0A] @ ''E'')],
                 page_words = [], rect_width = 100, rect_height = 100\<rparr>"

definition ex_entry10 :: entry where
  "ex_entry10 = \<lparr>court = Some 2, serial = ''10'', petitioner = Some ''A'',
                  respondent = Some ''B'', page = 1\<rparr>"

definition ex_entry9 :: entry where
  "ex_entry9 = \<lparr>court = Some 2, serial = ''9.5'', petitioner = Some ''D'',
                 respondent = Some ''E'', page = 1\<rparr>"

section \<open>Evaluation of the concrete inputs\<close>

lemma at_most_numeral: "at_most (numeral k) P q = at_most (Suc (pred_numeral k)) P q"
  by (simp add: numeral_eq_Suc)

lemmas char_eval = is_digit_def is_upper_def is_lower_def is_space_def is_word_def
  upper_char_def lower_char_def upper_def lower_def char_of_def bit_Suc_0_iff is_linebreak_def

lemmas rx_eval = chr_eq_def cls_ok_def word_before_def word_after_def cat_def alts_def
  re_match_def re_fullmatch_def re_search_def group1_def match_group1_def search_group1_def
  at_most_numeral

lemmas pat_eval = SERIAL_RE_def COURT_NUM_RE_def CHIEF_JUSTICE_RE_def VERSUS_RE_def
  IGNORE_HEAD_def is_meta_line_def

lemmas strip_eval = strip_pred_def py_strip_def strip_chars_def

lemma strip_lines:
  "py_strip ''5'' = ''5''" "py_strip ''6'' = ''6''" "py_strip ''A'' = ''A''"
  "py_strip ''B'' = ''B''" "py_strip ''D'' = ''D''" "py_strip ''E'' = ''E''"
  "py_strip ''versus'' = ''versus''"
  by (simp_all add: strip_eval char_eval)

lemma serial_lines:
  "SERIAL_RE ''5'' = Some ''5''" "SERIAL_RE ''6'' = Some ''6''" "SERIAL_RE ''A'' = None"
  "SERIAL_RE ''B'' = None" "SERIAL_RE ''D'' = None" "SERIAL_RE ''E'' = None"
  "SERIAL_RE ''versus'' = None"
  by (simp_all add: pat_eval rx_eval char_eval)

lemma meta_lines:
  "is_meta_line ''A'' = False" "is_meta_line ''B'' = False" "is_meta_line ''D'' = False"
  "is_meta_line ''E'' = False" "is_meta_line ''versus'' = False"
  by (simp_all add: pat_eval rx_eval char_eval)

lemma versus_lines:
  "re_match True VERSUS_RE ''A'' = False" "re_match True VERSUS_RE ''B'' = False"
  "re_match True VERSUS_RE ''D'' = False" "re_match True VERSUS_RE ''E'' = False"
  "re_match True VERSUS_RE ''versus'' = True"
  by (simp_all add: pat_eval rx_eval char_eval)

lemma title_lines:
  "smart_title ''A'' = ''A''" "smart_title ''B'' = ''B''" "smart_title ''D'' = ''D''"
  "smart_title ''E'' = ''E''"
  by code_simp+

lemmas line_eval = strip_lines serial_lines meta_lines versus_lines title_lines

lemma detect_pages:
  "detect_court_number ex_page_a = Some 2" "detect_court_number ex_page_b = None"
  "detect_court_number ex_page_c = None" "detect_court_number ex_page_zero = Some 0"
  by (simp_all add: detect_court_number_def int_of_digits_def ex_page_a_def ex_page_b_def
        ex_page_c_def ex_page_zero_def pat_eval rx_eval char_eval)

lemma page_fields:
  "page_blocks ex_page_a = [(0, 0, 1, 1, ''5'' @ [CHR 0x0A] @ ''A'' @ [CHR 0x0A] @ ''versus''
                                               @ [CHR 0x0A] @ ''B'')]"
  "page_blocks ex_page_b = [(0, 0, 1, 1, ''6'' @ [CHR 0x0A] @ ''D'' @ [CHR 0x0A] @ ''versus'')]"
  "page_blocks ex_page_c = [(0, 0, 1, 1, ''E'')]"
  "page_blocks ex_page_zero = []"
  "page_words ex_page_a = []" "page_words ex_page_b = []" "page_words ex_page_c = []"
  "page_words ex_page_zero = []"
  "rect_width ex_page_a = 100" "rect_width ex_page_b = 100" "rect_width ex_page_c = 100"
  "rect_width ex_page_zero = 100"
  by (simp_all add: ex_page_a_def ex_page_b_def ex_page_c_def ex_page_zero_def)

lemmas page_eval = page_fields Let_def process_page_def process_block_def process_line_def page_split_x_def
  sort_blocks_def splitlines_def truthy_int_def detect_pages line_eval is_linebreak_def

lemma page_a_result:
  "process_page (its, lc) (n, ex_page_a)
     = (its @ [\<lparr>court = Some 2, serial = ''5'', petitioner = Some ''A'', respondent = Some ''B'',
                 page = n + 1\<rparr>], Some 2)"
  by (simp add: page_eval)

lemma page_b_result:
  "process_page (its, Some 2) (n, ex_page_b)
     = (its @ [\<lparr>court = Some 2, serial = ''6'', petitioner = Some ''D'', respondent = None,
                 page = n + 1\<rparr>], Some 2)"
  by (simp add: page_eval)

lemma page_c_result: "process_page (its, Some 2) (n, ex_page_c) = (its, Some 2)"
  by (simp add: page_eval)

lemma page_zero_result: "process_page (its, Some 2) (n, ex_page_zero) = (its, Some 2)"
  by (simp add: page_eval)

lemmas ex_results = page_a_result page_b_result page_c_result page_zero_result

lemma items_ab:
  "all_items [ex_page_a, ex_page_b]
     = [ex_entry5, \<lparr>court = Some 2, serial = ''6'', petitioner = Some ''D'', respondent = None,
                    page = 2\<rparr>]"
  by (simp add: all_items_def parse_loop_def enumerate_eq_zip upt_rec ex_results ex_entry5_def)


lemma items_abc: "all_items [ex_page_a, ex_page_b, ex_page_c] = all_items [ex_page_a, ex_page_b]"
  by (simp add: all_items_def parse_loop_def enumerate_eq_zip upt_rec ex_results)

lemma loop_a_zero: "parse_loop [ex_page_a, ex_page_zero] = ([ex_entry5], Some 2)"
  by (simp add: parse_loop_def enumerate_eq_zip upt_rec ex_results ex_entry5_def)

lemma items_a_zero_b:
  "all_items [ex_page_a, ex_page_zero, ex_page_b]
     = [ex_entry5, \<lparr>court = Some 2, serial = ''6'', petitioner = Some ''D'', respondent = None,
                    page = 3\<rparr>]"
  by (simp add: all_items_def parse_loop_def enumerate_eq_zip upt_rec ex_results ex_entry5_def)

section \<open>The index keeps the first entry of a key\<close>

lemma map_of_build_index_from:
  "map_of (build_index_from idx its) k =
     (case map_of idx k of Some v \<Rightarrow> Some v | None \<Rightarrow> find (\<lambda>it. entry_key it = k) its)"
proof (induction its arbitrary: idx)
  case Nil
  then show ?case by (simp split: option.split)
next
  case (Cons it its)
  show ?case
    by (simp add: Cons.IH map_add_def split: option.split)
qed

lemma map_of_build_index:
  "map_of (build_index its) k = find (\<lambda>it. entry_key it = k) its"
  by (simp add: build_index_def map_of_build_index_from)

lemma distinct_build_index_from:
  "distinct (map fst idx) \<Longrightarrow> distinct (map fst (build_index_from idx its))"
proof (induction its arbitrary: idx)
  case Nil
  then show ?case by simp
next
  case (Cons it its)
  have "distinct (map fst (if map_of idx (entry_key it) = None then idx @ [(entry_key it, it)] else idx))"
    using Cons.prems by (auto simp: map_of_eq_None_iff)
  then show ?case by (simp add: Cons.IH del: map_of_eq_None_iff)
qed



text \<open>
  C8. The lookup loop gives one output line for every reference. For a reference that is
  the key of no entry the line is the reference followed by \<open> - NOT FOUND\<close>, next to
  the formatted lines of the references that are found. The loop has no branch that
  raises.
\<close>

theorem lookup_miss_not_found:
  "length (lookup_lines (build_index its) req) = length req
   \<and> (\<forall>i<length req. (\<forall>it\<in>set its. entry_key it \<noteq> req ! i)
        \<longrightarrow> lookup_lines (build_index its) req ! i = req ! i @ '' - NOT FOUND'')
   \<and> (\<forall>i<length req. \<forall>it. find (\<lambda>it. entry_key it = req ! i) its = Some it
        \<longrightarrow> lookup_lines (build_index its) req ! i = format_line it)"
proof (intro conjI allI impI)
  show "length (lookup_lines (build_index its) req) = length req"
    by (simp add: lookup_lines_def)
next
  fix i
  assume i: "i < length req" and miss: "\<forall>it\<in>set its. entry_key it \<noteq> req ! i"
  from miss have "find (\<lambda>it. entry_key it = req ! i) its = None"
    by (simp add: find_None_iff)
  then show "lookup_lines (build_index its) req ! i = req ! i @ '' - NOT FOUND''"
    using i by (simp add: lookup_lines_def lookup_line_def map_of_build_index)
next
  fix i it
  assume i: "i < length req" and hit: "find (\<lambda>it. entry_key it = req ! i) its = Some it"
  then show "lookup_lines (build_index its) req ! i = format_line it"
    by (simp add: lookup_lines_def lookup_line_def map_of_build_index)
qed

lemma entry_key_ex: "entry_key ex_first = ''3/10''" "entry_key ex_second = ''3/10''"
  by (simp_all add: entry_key_def ex_first_def ex_second_def str_court_def str_int_def str_nat.simps [of 3] str_nat.simps [of 10] str_nat.simps [of 1] char_of_def bit_Suc_0_iff)


theorem lookup_miss_not_found_witness:
  "lookup_lines (build_index [ex_first, ex_second]) [''3/10'', ''4/1''] = [''3/10 - Abc Ltd. Vs Xyz'', ''4/1 - NOT FOUND'']"
proof -
  let ?ls = "lookup_lines (build_index [ex_first, ex_second]) [''3/10'', ''4/1'']"
  note t = lookup_miss_not_found [of "[ex_first, ex_second]" "[''3/10'', ''4/1'']"]
  have l: "length ?ls = 2" using t by simp
  have a: "?ls ! 1 = ''4/1 - NOT FOUND''"
    using t by (simp add: entry_key_ex)
  have b: "?ls ! 0 = format_line ex_first"
    using t by (simp add: entry_key_ex)
  have c: "format_line ex_first = ''3/10 - Abc Ltd. Vs Xyz''"
    by code_simp
  from l have "?ls = [?ls ! 0, ?ls ! 1]"
    by (auto simp: length_Suc_conv numeral_2_eq_2)
  with a b c show ?thesis by simp
qed

section \<open>The loop over the pages\<close>

subsection \<open>One line, one block, one page\<close>

lemma list_all_update:
  "list_all P xs \<Longrightarrow> P x \<Longrightarrow> list_all P (xs[i := x])"
  by (induction xs arbitrary: i) (auto split: nat.splits)

lemma page_inv_update:
  assumes inv: "page_inv crt pno base st" and cur: "current st = Some i"
    and same: "court x = court (items st ! i)" "page x = page (items st ! i)"
  shows "page_inv crt pno base (st\<lparr>items := (items st)[i := x]\<rparr>)"
    and "page_inv crt pno base (st\<lparr>items := (items st)[i := x], capture_resp := b\<rparr>)"
proof -
  from inv cur obtain new where n: "items st = base @ new"
      "list_all (\<lambda>e. court e = crt \<and> page e = pno + 1) new"
      "length base \<le> i" "i < length base + length new"
    by (auto simp: page_inv_def)
  have at: "items st ! i = new ! (i - length base)"
    using n by (simp add: nth_append)
  have "i - length base < length new" using n by arith
  then have "court (new ! (i - length base)) = crt \<and> page (new ! (i - length base)) = pno + 1"
    using n(2) by (simp add: list_all_length)
  then have px: "court x = crt \<and> page x = pno + 1" using same at by simp
  have upd: "(items st)[i := x] = base @ new[i - length base := x]"
    using n by (simp add: list_update_append)
  have all: "list_all (\<lambda>e. court e = crt \<and> page e = pno + 1) (new[i - length base := x])"
    using n(2) px by (rule list_all_update)
  show "page_inv crt pno base (st\<lparr>items := (items st)[i := x]\<rparr>)"
    unfolding page_inv_def using upd all n cur
    by (intro exI [of _ "new[i - length base := x]"]) simp
  show "page_inv crt pno base (st\<lparr>items := (items st)[i := x], capture_resp := b\<rparr>)"
    unfolding page_inv_def using upd all n cur
    by (intro exI [of _ "new[i - length base := x]"]) simp
qed

lemma page_inv_new:
  assumes inv: "page_inv crt pno base st"
  shows "page_inv crt pno base
           (st\<lparr>items := items st @ [\<lparr>court = crt, serial = m, petitioner = None,
                                      respondent = None, page = pno + 1\<rparr>],
               current := Some (length (items st)), capture_resp := False\<rparr>)"
proof -
  from inv obtain new where n: "items st = base @ new"
      "list_all (\<lambda>e. court e = crt \<and> page e = pno + 1) new"
    by (auto simp: page_inv_def)
  show ?thesis
    unfolding page_inv_def using n
    by (intro exI [of _ "new @ [\<lparr>court = crt, serial = m, petitioner = None,
                                  respondent = None, page = pno + 1\<rparr>]"]) simp
qed

lemma page_inv_flag:
  "page_inv crt pno base st \<Longrightarrow> page_inv crt pno base (st\<lparr>capture_resp := b\<rparr>)"
  by (simp add: page_inv_def)

lemma page_inv_line:
  assumes inv: "page_inv crt pno base st"
  shows "page_inv crt pno base (process_line crt pno il st raw)"
proof (cases "py_strip raw = []")
  case True
  then show ?thesis using inv by (simp add: process_line_def Let_def)
next
  case ne: False
  show ?thesis
  proof (cases "if il then SERIAL_RE (py_strip raw) else None")
    case (Some m)
    then show ?thesis
      using ne page_inv_new [OF inv] by (simp add: process_line_def Let_def)
  next
    case None
    show ?thesis
    proof (cases "current st")
      case cn: None
      then show ?thesis
        using ne None inv by (simp add: process_line_def Let_def page_inv_flag)
    next
      case (Some i)
      then show ?thesis
        using ne None inv page_inv_update [OF inv Some]
        by (simp add: process_line_def Let_def page_inv_flag)
    qed
  qed
qed

lemma page_inv_lines:
  "page_inv crt pno base st \<Longrightarrow> page_inv crt pno base (foldl (process_line crt pno il) st ls)"
  by (induction ls arbitrary: st) (simp_all add: page_inv_line)

lemma page_inv_block:
  "page_inv crt pno base st \<Longrightarrow> page_inv crt pno base (process_block crt pno sx st b)"
  by (cases b) (simp add: process_block_def page_inv_lines)

lemma page_inv_blocks:
  "page_inv crt pno base st \<Longrightarrow> page_inv crt pno base (foldl (process_block crt pno sx) st bs)"
  by (induction bs arbitrary: st) (simp_all add: page_inv_block)

text \<open>The court that the entries of a page receive, and the court carried on from it.\<close>

lemma last_known_snoc:
  "last_known (ps @ [pg]) =
     (if truthy_int (detect_court_number pg) then detect_court_number pg else last_known ps)"
  by (simp add: last_known_def)

lemma last_known_truthy: "last_known ps = None \<or> truthy_int (last_known ps)"
proof -
  let ?f = "filter truthy_int (map detect_court_number ps)"
  show ?thesis
  proof (cases "?f = []")
    case True
    then show ?thesis by (simp add: last_known_def)
  next
    case False
    then have "last ?f \<in> set ?f" by (rule last_in_set)
    then have "truthy_int (last ?f)" by simp
    then show ?thesis using False by (simp add: last_known_def)
  qed
qed

lemma process_page_result:
  "\<exists>new. process_page (its, last_known pre) (length pre, pg) = (its @ new, last_known (pre @ [pg]))
         \<and> list_all (\<lambda>e. court e = last_known (pre @ [pg]) \<and> page e = length pre + 1) new"
proof -
  define d where "d = detect_court_number pg"
  define crt where "crt = (if truthy_int d then d else last_known pre)"
  define st0 where "st0 = \<lparr>items = its, current = None, capture_resp = False\<rparr>"
  define st where
    "st = foldl (process_block crt (length pre) (page_split_x pg)) st0 (sort_blocks (page_blocks pg))"
  have crt: "crt = last_known (pre @ [pg])"
    by (simp add: last_known_snoc crt_def d_def)
  have nxt: "(if truthy_int crt then crt else last_known pre) = last_known (pre @ [pg])"
    using last_known_truthy [of pre] crt by (auto simp: last_known_snoc truthy_int_def)
  have "page_inv crt (length pre) its st0" by (simp add: page_inv_def st0_def)
  then have "page_inv crt (length pre) its st" unfolding st_def by (rule page_inv_blocks)
  then obtain new where n: "items st = its @ new"
      "list_all (\<lambda>e. court e = crt \<and> page e = length pre + 1) new"
    unfolding page_inv_def by blast
  have "process_page (its, last_known pre) (length pre, pg)
        = (items st, if truthy_int crt then crt else last_known pre)"
    by (simp add: process_page_def Let_def st_def st0_def crt_def d_def)
  with nxt have "process_page (its, last_known pre) (length pre, pg)
        = (its @ new, last_known (pre @ [pg]))"
    using n(1) by simp
  then show ?thesis using n(2) crt by auto
qed

lemma parse_from:
  "\<exists>new. foldl process_page (its, last_known pre) (enumerate (length pre) ps)
            = (its @ new, last_known (pre @ ps))
         \<and> list_all (\<lambda>e. length pre < page e \<and> page e \<le> length pre + length ps
                          \<and> court e = last_known (take (page e) (pre @ ps))) new"
proof (induction ps arbitrary: its pre)
  case Nil
  show ?case by (intro exI [of _ "[]"]) simp
next
  case (Cons pg ps)
  obtain n1 where n1: "process_page (its, last_known pre) (length pre, pg) = (its @ n1, last_known (pre @ [pg]))"
      "list_all (\<lambda>e. court e = last_known (pre @ [pg]) \<and> page e = length pre + 1) n1"
    using process_page_result by blast
  obtain n2 where n2: "foldl process_page (its @ n1, last_known (pre @ [pg])) (enumerate (length (pre @ [pg])) ps)
            = ((its @ n1) @ n2, last_known ((pre @ [pg]) @ ps))"
      "list_all (\<lambda>e. length (pre @ [pg]) < page e \<and> page e \<le> length (pre @ [pg]) + length ps
                          \<and> court e = last_known (take (page e) ((pre @ [pg]) @ ps))) n2"
    using Cons.IH [of "its @ n1" "pre @ [pg]"] by blast
  have a: "foldl process_page (its, last_known pre) (enumerate (length pre) (pg # ps))
            = (its @ (n1 @ n2), last_known (pre @ pg # ps))"
    using n1(1) n2(1) by simp
  have b1: "list_all (\<lambda>e. length pre < page e \<and> page e \<le> length pre + length (pg # ps)
                          \<and> court e = last_known (take (page e) (pre @ pg # ps))) n1"
    using n1(2) by (auto simp: list_all_iff)
  have b2: "list_all (\<lambda>e. length pre < page e \<and> page e \<le> length pre + length (pg # ps)
                          \<and> court e = last_known (take (page e) (pre @ pg # ps))) n2"
    using n2(2) by (auto simp: list_all_iff)
  show ?case using a b1 b2 by (intro exI [of _ "n1 @ n2"]) simp
qed

lemma last_known_Nil: "last_known [] = None"
  by (simp add: last_known_def)

lemma parse_loop_eq:
  "parse_loop doc = (all_items doc, last_known doc)
   \<and> list_all (\<lambda>e. 0 < page e \<and> page e \<le> length doc
                    \<and> court e = last_known (take (page e) doc)) (all_items doc)"
  using parse_from [of "[]" "[]" doc]
  by (auto simp: parse_loop_def all_items_def last_known_Nil)

lemma parse_loop_append:
  "\<exists>new. all_items (pre @ post) = all_items pre @ new"
proof -
  have "parse_loop (pre @ post)
        = foldl process_page (parse_loop pre) (enumerate (length pre) post)"
    by (simp add: parse_loop_def enumerate_append_eq)
  also have "parse_loop pre = (all_items pre, last_known pre)"
    using parse_loop_eq by blast
  finally show ?thesis
    using parse_from [of "all_items pre" pre post] by (auto simp: all_items_def)
qed


subsection \<open>The entries that \<open>parse_pdf\<close> returns\<close>

text \<open>
  C1. Every entry of the list that \<open>parse_pdf\<close> returns has a court that is a number
  other than 0 and a petitioner and a respondent that are strings other than the empty
  one. The returned entries are among the items of the loop, and an item that has no
  court, the court 0, no petitioner, an empty petitioner, no respondent or an empty
  respondent when the loop ends is not in the returned list.
\<close>

theorem parse_pdf_complete:
  "(\<forall>e\<in>set (parse_pdf doc).
      (\<exists>c. court e = Some c \<and> c \<noteq> 0) \<and> (\<exists>p. petitioner e = Some p \<and> p \<noteq> [])
      \<and> (\<exists>r. respondent e = Some r \<and> r \<noteq> []))
   \<and> set (parse_pdf doc) \<subseteq> set (all_items doc)
   \<and> (\<forall>e\<in>set (all_items doc).
        court e = None \<or> court e = Some 0 \<or> petitioner e = None \<or> petitioner e = Some []
        \<or> respondent e = None \<or> respondent e = Some []
        \<longrightarrow> e \<notin> set (parse_pdf doc))"
  by (auto simp: parse_pdf_def is_complete_def truthy_int_def truthy_str_def split: option.splits)

theorem parse_pdf_complete_witness:
  "parse_pdf [ex_page_a, ex_page_b] = [ex_entry5]
   \<and> \<lparr>court = Some 2, serial = ''6'', petitioner = Some ''D'', respondent = None, page = 2\<rparr>
       \<in> set (all_items [ex_page_a, ex_page_b])
   \<and> \<lparr>court = Some 2, serial = ''6'', petitioner = Some ''D'', respondent = None, page = 2\<rparr>
       \<notin> set (parse_pdf [ex_page_a, ex_page_b])"
proof -
  let ?e = "\<lparr>court = Some 2, serial = ''6'', petitioner = Some ''D'', respondent = None, page = 2\<rparr>"
  have in_items: "?e \<in> set (all_items [ex_page_a, ex_page_b])"
    by (simp add: items_ab)
  have "respondent ?e = None" by simp
  with parse_pdf_complete [of "[ex_page_a, ex_page_b]"] in_items
  have out: "?e \<notin> set (parse_pdf [ex_page_a, ex_page_b])"
    by blast
  have "parse_pdf [ex_page_a, ex_page_b] = [ex_entry5]"
    by (simp add: parse_pdf_def items_ab is_complete_def truthy_int_def truthy_str_def ex_entry5_def)
  with in_items out show ?thesis by simp
qed

subsection \<open>The court carried from page to page\<close>

text \<open>
  C7, as the code has it. A detected court number counts only when it is other than 0.
  Every item was started on a page of the document, whose number it bears. When that page
  yields a detected number other than 0 the item has this number as its court; otherwise
  it has the last known court of the pages before, which is the detection other than 0
  of the latest such page, or none. When the loop ends the carried court is the last
  known court of the whole document, and \<open>last_known\<close> after one more page is the
  detection of that page when it is a number other than 0 and unchanged otherwise.
\<close>

theorem court_carried_forward:
  "(\<forall>e\<in>set (all_items doc).
      0 < page e \<and> page e \<le> length doc
      \<and> court e =
          (if truthy_int (detect_court_number (doc ! (page e - 1)))
           then detect_court_number (doc ! (page e - 1))
           else last_known (take (page e - 1) doc)))
   \<and> snd (parse_loop doc) = last_known doc
   \<and> last_known (ps @ [pg]) =
        (if truthy_int (detect_court_number pg) then detect_court_number pg else last_known ps)"
proof (intro conjI ballI)
  fix e
  assume e: "e \<in> set (all_items doc)"
  with parse_loop_eq [of doc]
  have p: "0 < page e" "page e \<le> length doc" "court e = last_known (take (page e) doc)"
    by (auto simp: list_all_iff)
  from p(1,2) have "take (page e) doc = take (page e - 1) doc @ [doc ! (page e - 1)]"
    using take_Suc_conv_app_nth [of "page e - 1" doc] by simp
  with p(3) have "court e =
          (if truthy_int (detect_court_number (doc ! (page e - 1)))
           then detect_court_number (doc ! (page e - 1))
           else last_known (take (page e - 1) doc))"
    by (simp add: last_known_snoc)
  with p show "0 < page e" "page e \<le> length doc" "court e =
          (if truthy_int (detect_court_number (doc ! (page e - 1)))
           then detect_court_number (doc ! (page e - 1))
           else last_known (take (page e - 1) doc))"
    by simp_all
next
  show "snd (parse_loop doc) = last_known doc"
    using parse_loop_eq [of doc] by simp
  show "last_known (ps @ [pg]) =
        (if truthy_int (detect_court_number pg) then detect_court_number pg else last_known ps)"
    by (rule last_known_snoc)
qed

theorem court_carried_forward_witness:
  "detect_court_number ex_page_a = Some 2 \<and> detect_court_number ex_page_b = None
   \<and> map court (all_items [ex_page_a, ex_page_b]) = [Some 2, Some 2]
   \<and> map page (all_items [ex_page_a, ex_page_b]) = [1, 2]
   \<and> snd (parse_loop [ex_page_a, ex_page_b]) = Some 2"
proof -
  have lk: "last_known [ex_page_a, ex_page_b] = Some 2"
    by (simp add: last_known_def detect_pages truthy_int_def)
  with court_carried_forward [of "[ex_page_a, ex_page_b]"]
  have "snd (parse_loop [ex_page_a, ex_page_b]) = Some 2"
    by simp
  then show ?thesis
    by (simp add: detect_pages items_ab ex_entry5_def)
qed

text \<open>
  The page \<open>ex_page_zero\<close> yields the detected court number 0. The carried court stays 2
  after it, and the entry of the next page, which has no marker, receives 2.
\<close>

theorem court_zero_counterexample:
  "detect_court_number ex_page_zero = Some 0 \<and> detect_court_number ex_page_b = None
   \<and> snd (parse_loop [ex_page_a, ex_page_zero]) = Some 2
   \<and> map court (all_items [ex_page_a, ex_page_zero, ex_page_b]) = [Some 2, Some 2]
   \<and> map page (all_items [ex_page_a, ex_page_zero, ex_page_b]) = [1, 3]"
  by (simp add: detect_pages loop_a_zero items_a_zero_b ex_entry5_def)

subsection \<open>The state of the entry machine does not cross a page boundary\<close>

text \<open>
  C10. \<open>process_page\<close> starts every page with no current entry and the flag off. So
  the pages after a page boundary only append items: those of the pages before the
  boundary stay as they were when these pages were exhausted, the new ones bear later
  page numbers, and the output for the whole document is the output for the pages before
  the boundary followed by the complete ones among the new items. An item of the pages
  before the boundary whose petitioner or respondent is unset there is the same at the
  end, and is not in the output.
\<close>

theorem page_boundary_reset:
  "\<exists>new. all_items (pre @ post) = all_items pre @ new
      \<and> list_all (\<lambda>e. length pre < page e) new
      \<and> parse_pdf (pre @ post) = parse_pdf pre @ filter is_complete new
      \<and> (\<forall>i<length (all_items pre).
           petitioner (all_items pre ! i) = None \<or> respondent (all_items pre ! i) = None
           \<longrightarrow> all_items (pre @ post) ! i = all_items pre ! i
                \<and> all_items pre ! i \<notin> set (parse_pdf (pre @ post)))"
proof -
  have "parse_loop (pre @ post)
        = foldl process_page (parse_loop pre) (enumerate (length pre) post)"
    by (simp add: parse_loop_def enumerate_append_eq)
  also have "parse_loop pre = (all_items pre, last_known pre)"
    using parse_loop_eq by blast
  finally obtain new where n: "all_items (pre @ post) = all_items pre @ new"
      "list_all (\<lambda>e. length pre < page e) new"
    using parse_from [of "all_items pre" pre post] by (auto simp: all_items_def list_all_iff)
  have out: "parse_pdf (pre @ post) = parse_pdf pre @ filter is_complete new"
    using n(1) by (simp add: parse_pdf_def)
  have "\<forall>i<length (all_items pre).
           petitioner (all_items pre ! i) = None \<or> respondent (all_items pre ! i) = None
           \<longrightarrow> all_items (pre @ post) ! i = all_items pre ! i
                \<and> all_items pre ! i \<notin> set (parse_pdf (pre @ post))"
    using n(1)
    by (auto simp: nth_append parse_pdf_def is_complete_def truthy_str_def)
  with n out show ?thesis by blast
qed

theorem page_boundary_reset_witness:
  "all_items ([ex_page_a, ex_page_b] @ [ex_page_c])
     = [ex_entry5, \<lparr>court = Some 2, serial = ''6'', petitioner = Some ''D'', respondent = None,
                    page = 2\<rparr>]
   \<and> parse_pdf ([ex_page_a, ex_page_b] @ [ex_page_c]) = [ex_entry5]"
proof -
  obtain new where n: "all_items ([ex_page_a, ex_page_b] @ [ex_page_c])
        = all_items [ex_page_a, ex_page_b] @ new"
      "parse_pdf ([ex_page_a, ex_page_b] @ [ex_page_c])
        = parse_pdf [ex_page_a, ex_page_b] @ filter is_complete new"
    using page_boundary_reset [of "[ex_page_a, ex_page_b]" "[ex_page_c]"] by blast
  from n(1) have "new = []"
    by (simp add: items_abc)
  with n(2) have "parse_pdf ([ex_page_a, ex_page_b] @ [ex_page_c]) = parse_pdf [ex_page_a, ex_page_b]"
    by simp
  also have "\<dots> = [ex_entry5]"
    by (simp add: parse_pdf_def items_ab is_complete_def truthy_int_def truthy_str_def ex_entry5_def)
  finally show ?thesis by (simp add: items_abc items_ab)
qed

section \<open>Serial markers\<close>

subsection \<open>What the pattern of the serial marker matches\<close>

lemma cls_ok_False [simp]: "cls_ok False P = P"
  by (simp add: cls_ok_def fun_eq_iff)

lemma snd_skip [simp]: "snd (skip P (p, s)) = dropWhile P s"
  by (induction s arbitrary: p) auto

lemma fst_skip_class:
  "\<exists>d. p = Some d \<and> P d \<Longrightarrow> \<exists>d. fst (skip P (p, s)) = Some d \<and> P d"
  by (induction s arbitrary: p) auto

lemma many_concat:
  assumes kill: "\<And>p' c cs. P c \<Longrightarrow> p' = p \<or> (\<exists>d. p' = Some d \<and> P d) \<Longrightarrow> F (p', c # cs) = []"
  shows "concat (map F (many P (p, s))) = F (skip P (p, s))"
  using kill
proof (induction s arbitrary: p)
  case Nil
  show ?case by simp
next
  case (Cons c cs)
  show ?case
  proof (cases "P c")
    case True
    have "concat (map F (many P (Some c, cs))) = F (skip P (Some c, cs))"
      using True by (intro Cons.IH Cons.prems) auto
    moreover have "F (p, c # cs) = []"
      using True by (intro Cons.prems) auto
    ultimately show ?thesis using True by simp
  next
    case False
    then show ?thesis by simp
  qed
qed

lemma at_most_concat:
  assumes kill: "\<And>p' c cs. P c \<Longrightarrow> p' = p \<or> (\<exists>d. p' = Some d \<and> P d) \<Longrightarrow> F (p', c # cs) = []"
  shows "concat (map F (at_most n P (p, s)))
           = (if length (takeWhile P s) \<le> n then F (skip P (p, s)) else [])"
  using kill
proof (induction n arbitrary: p s)
  case 0
  show ?case
  proof (cases s)
    case Nil
    then show ?thesis by simp
  next
    case (Cons c cs)
    then show ?thesis using "0.prems" [of c p cs] by auto
  qed
next
  case (Suc n)
  show ?case
  proof (cases s)
    case Nil
    then show ?thesis by simp
  next
    case (Cons c cs)
    show ?thesis
    proof (cases "P c")
      case True
      have "concat (map F (at_most n P (Some c, cs)))
              = (if length (takeWhile P cs) \<le> n then F (skip P (Some c, cs)) else [])"
        using True by (intro Suc.IH Suc.prems) auto
      moreover have "F (p, c # cs) = []"
        using True by (intro Suc.prems) auto
      ultimately show ?thesis using True Cons by simp
    next
      case False
      then show ?thesis using Cons by simp
    qed
  qed
qed


lemma digit_word: "is_digit c \<Longrightarrow> is_word c"
  by (simp add: is_word_def)

lemma digit_not_period: "is_digit c \<Longrightarrow> c \<noteq> CHR ''.''"
  by (auto simp: is_digit_def)

lemma space_not_digit: "is_space c \<Longrightarrow> \<not> is_digit c"
  by (auto simp: is_digit_def is_space_def Let_def)

lemma period_not_word: "\<not> is_word CHR ''.''"
  by (simp add: is_word_def is_digit_def is_upper_def is_lower_def)

lemma word_after_iff: "word_after q \<longleftrightarrow> snd q \<noteq> [] \<and> is_word (hd (snd q))"
  by (cases "snd q") (simp_all add: word_after_def)

lemma word_before_skip_digits: "is_digit f \<Longrightarrow> word_before (skip is_digit (Some f, s))"
  using fst_skip_class [of "Some f" is_digit s] by (auto simp: word_before_def digit_word)

text \<open>The tokens that end at a word boundary behind \<open>\.\d+\<close>.\<close>

lemma frac_tokens:
  "concat (map (\<lambda>b. map (\<lambda>e. g (snd b)) (run False WordB b))
             (run False (Seq (Lit ''.'') (Plus is_digit)) (p, r)))
     = (case r of
          [] \<Rightarrow> []
        | c # r' \<Rightarrow>
            if c = CHR ''.'' \<and> takeWhile is_digit r' \<noteq> []
               \<and> (dropWhile is_digit r' = [] \<or> \<not> is_word (hd (dropWhile is_digit r')))
            then [g (dropWhile is_digit r')] else [])"
proof (cases r)
  case Nil
  then show ?thesis by simp
next
  case (Cons c r')
  show ?thesis
  proof (cases "c = CHR ''.''")
    case False
    then show ?thesis using Cons by (auto simp: chr_eq_def)
  next
    case dot: True
    show ?thesis
    proof (cases r')
      case Nil
      then show ?thesis using Cons dot by (simp add: chr_eq_def)
    next
      case (Cons f fs)
      show ?thesis
      proof (cases "is_digit f")
        case False
        then show ?thesis using Cons \<open>r = c # r'\<close> dot by (simp add: chr_eq_def)
      next
        case True
        let ?F = "\<lambda>b. map (\<lambda>e. g (snd b)) (run False WordB b)"
        have kill: "?F (p', x # xs) = []"
          if "is_digit x" "p' = Some f \<or> (\<exists>d. p' = Some d \<and> is_digit d)" for p' x xs
          using that True by (auto simp: word_before_def word_after_def digit_word)
        have "concat (map ?F (many is_digit (Some f, fs))) = ?F (skip is_digit (Some f, fs))"
          by (rule many_concat) (rule kill)
        then show ?thesis
          using Cons \<open>r = c # r'\<close> dot True
          by (simp add: chr_eq_def word_before_skip_digits word_after_iff)
      qed
    qed
  qed
qed


text \<open>The same after the optional part and the boundary, from a position behind a digit.\<close>

lemma opt_frac_tokens:
  assumes "is_digit dl"
  shows "concat (map (\<lambda>b. map (\<lambda>e. g (snd b)) (run False WordB b))
             (run False (Opt (Seq (Lit ''.'') (Plus is_digit))) (Some dl, r)))
     = (case r of
          [] \<Rightarrow> []
        | c # r' \<Rightarrow>
            if c = CHR ''.'' \<and> takeWhile is_digit r' \<noteq> []
               \<and> (dropWhile is_digit r' = [] \<or> \<not> is_word (hd (dropWhile is_digit r')))
            then [g (dropWhile is_digit r')] else [])
       @ (if r = [] \<or> \<not> is_word (hd r) then [g r] else [])"
proof -
  have "run False (Opt (Seq (Lit ''.'') (Plus is_digit))) (Some dl, r)
        = run False (Seq (Lit ''.'') (Plus is_digit)) (Some dl, r) @ [(Some dl, r)]"
    by simp
  moreover have "map (\<lambda>e. g (snd (Some dl, r))) (run False WordB (Some dl, r))
        = (if r = [] \<or> \<not> is_word (hd r) then [g r] else [])"
    using assms by (auto simp: word_before_def word_after_iff digit_word)
  ultimately show ?thesis
    using frac_tokens [of g "Some dl" r] by (simp del: run.simps)
qed

lemma concat_map_concat:
  "concat (map f (concat (map h xs))) = concat (map (\<lambda>x. concat (map f (h x))) xs)"
  by (induction xs) simp_all

lemma take_before_dropWhile: "take (length t - length (dropWhile P t)) t = takeWhile P t"
proof -
  have "length t = length (takeWhile P t) + length (dropWhile P t)"
    by (metis length_append takeWhile_dropWhile_id)
  then have "length t - length (dropWhile P t) = length (takeWhile P t)" by simp
  then show ?thesis by (simp add: takeWhile_eq_take [symmetric])
qed

text \<open>The tokens of the group \<open>\d{1,3}(?:\.\d+)?\<close> followed by \<open>\b\<close>.\<close>

lemma group_tokens:
  "concat (map (\<lambda>b. map (\<lambda>e. g (snd b)) (run False WordB b))
             (run False (Seq (Rep 1 3 is_digit) (Opt (Seq (Lit ''.'') (Plus is_digit)))) (p, t)))
     = (let ds = takeWhile is_digit t; r = dropWhile is_digit t in
        if ds = [] \<or> 3 < length ds then []
        else (case r of
                [] \<Rightarrow> []
              | c # r' \<Rightarrow>
                  if c = CHR ''.'' \<and> takeWhile is_digit r' \<noteq> []
                     \<and> (dropWhile is_digit r' = [] \<or> \<not> is_word (hd (dropWhile is_digit r')))
                  then [g (dropWhile is_digit r')] else [])
             @ (if r = [] \<or> \<not> is_word (hd r) then [g r] else []))"
proof (cases t)
  case Nil
  then show ?thesis by simp
next
  case (Cons c cs)
  show ?thesis
  proof (cases "is_digit c")
    case False
    then show ?thesis using Cons by simp
  next
    case True
    let ?W = "\<lambda>b. map (\<lambda>e. g (snd b)) (run False WordB b)"
    let ?FR = "Opt (Seq (Lit ''.'') (Plus is_digit))"
    let ?H = "\<lambda>b0. concat (map ?W (run False ?FR b0))"
    have rep: "run False (Rep 1 3 is_digit) (p, t) = at_most 2 is_digit (Some c, cs)"
      using Cons True by simp
    have kill: "?H (p', x # xs) = []"
      if "is_digit x" "p' = Some c \<or> (\<exists>d. p' = Some d \<and> is_digit d)" for p' x xs
    proof -
      from that True obtain d where d: "p' = Some d" "is_digit d" by auto
      show ?thesis
        unfolding d(1) opt_frac_tokens [OF d(2)]
        using that(1) by (simp add: digit_word digit_not_period)
    qed
    obtain dl where dl: "skip is_digit (Some c, cs) = (Some dl, dropWhile is_digit cs)" "is_digit dl"
      using fst_skip_class [of "Some c" is_digit cs] True snd_skip [of is_digit "Some c" cs]
      by (metis prod.collapse)
    have "concat (map ?W (run False (Seq (Rep 1 3 is_digit) ?FR) (p, t)))
          = concat (map ?H (at_most 2 is_digit (Some c, cs)))"
      unfolding run.simps(7) rep by (rule concat_map_concat)
    also have "\<dots> = (if length (takeWhile is_digit cs) \<le> 2 then ?H (skip is_digit (Some c, cs)) else [])"
      by (rule at_most_concat) (rule kill)
    finally show ?thesis
      unfolding dl(1) opt_frac_tokens [OF dl(2)]
      using Cons True by (simp add: Let_def)
  qed
qed

text \<open>\<open>SERIAL_RE\<close> computes the serial token.\<close>

lemma SERIAL_RE_token: "SERIAL_RE line = serial_token line"
proof -
  define G where "G = Seq (Rep 1 3 is_digit) (Opt (Seq (Lit ''.'') (Plus is_digit)))"
  define t where "t = dropWhile is_space line"
  define g where "g = (\<lambda>rest :: string. take (length t - length rest) t)"
  define pa where "pa = fst (skip is_space (None, line))"
  have sk: "skip is_space (None, line) = (pa, t)"
    by (simp add: pa_def t_def prod_eq_iff)
  let ?F = "\<lambda>a. concat (map (\<lambda>b. map (\<lambda>e. take (length (snd a) - length (snd b)) (snd a))
                                    (run False WordB b)) (run False G a))"
  have kill: "?F (p', c # cs) = []"
    if "is_space c" for p' c cs
    using that by (simp add: G_def space_not_digit)
  have "group1 False (Seq Bol (Star is_space)) G WordB (None, line)
        = concat (map ?F (many is_space (None, line)))"
    by (simp add: group1_def)
  also have "\<dots> = ?F (skip is_space (None, line))"
    by (rule many_concat) (rule kill)
  also have "\<dots> = concat (map (\<lambda>b. map (\<lambda>e. g (snd b)) (run False WordB b))
                       (run False G (pa, t)))"
    unfolding sk by (simp add: g_def)
  finally have grp: "group1 False (Seq Bol (Star is_space)) G WordB (None, line)
        = concat (map (\<lambda>b. map (\<lambda>e. g (snd b)) (run False WordB b))
                       (run False G (pa, t)))" .
  have g1: "g (dropWhile is_digit t) = takeWhile is_digit t"
    by (simp add: g_def take_before_dropWhile)
  have g2: "g (dropWhile is_digit r') = takeWhile is_digit t @ c # takeWhile is_digit r'"
    if "dropWhile is_digit t = c # r'" for c r'
  proof -
    have "t = takeWhile is_digit t @ c # takeWhile is_digit r' @ dropWhile is_digit r'"
      using that by (metis takeWhile_dropWhile_id)
    then have "g (dropWhile is_digit r')
          = take (length (takeWhile is_digit t @ c # takeWhile is_digit r'))
              ((takeWhile is_digit t @ c # takeWhile is_digit r') @ dropWhile is_digit r')"
      unfolding g_def by (metis add_diff_cancel_right' append.assoc append_Cons length_append)
    then show ?thesis by (simp only: append_eq_conv_conj [THEN iffD1, OF refl, THEN conjunct1, symmetric])
  qed
  have eq: "SERIAL_RE line =
      (case concat (map (\<lambda>b. map (\<lambda>e. g (snd b)) (run False WordB b))
                       (run False G (pa, t))) of [] \<Rightarrow> None | x # _ \<Rightarrow> Some x)"
    unfolding SERIAL_RE_def match_group1_def G_def [symmetric] grp ..
  define r where "r = dropWhile is_digit t"
  have g1': "g r = takeWhile is_digit t"
    using g1 by (simp add: r_def)
  have both: "SERIAL_RE line =
      (case (let ds = takeWhile is_digit t in
        if ds = [] \<or> 3 < length ds then []
        else (case r of
                [] \<Rightarrow> []
              | c # r' \<Rightarrow>
                  if c = CHR ''.'' \<and> takeWhile is_digit r' \<noteq> []
                     \<and> (dropWhile is_digit r' = [] \<or> \<not> is_word (hd (dropWhile is_digit r')))
                  then [g (dropWhile is_digit r')] else [])
             @ (if r = [] \<or> \<not> is_word (hd r) then [g r] else [])) of [] \<Rightarrow> None | x # _ \<Rightarrow> Some x)"
    unfolding eq G_def group_tokens r_def Let_def ..
  have spec: "serial_token line =
     (let ds = takeWhile is_digit t in
      if ds = [] \<or> 3 < length ds \<or> (r \<noteq> [] \<and> is_word (hd r)) then None
      else (case r of
              [] \<Rightarrow> Some ds
            | c # r' \<Rightarrow>
                (let fs = takeWhile is_digit r'; r2 = dropWhile is_digit r' in
                 if c = CHR ''.'' \<and> fs \<noteq> [] \<and> (r2 = [] \<or> \<not> is_word (hd r2))
                 then Some (ds @ c # fs) else Some ds)))"
    unfolding serial_token_def t_def r_def Let_def ..
  show ?thesis
  proof (cases r)
    case Nil
    then show ?thesis
      unfolding both spec using g1' by (simp add: Let_def)
  next
    case (Cons c r')
    have "g (dropWhile is_digit r') = takeWhile is_digit t @ c # takeWhile is_digit r'"
      using Cons by (intro g2) (simp add: r_def)
    then show ?thesis
      unfolding both spec using g1' Cons by (simp add: Let_def period_not_word)
  qed
qed


subsection \<open>Serial markers in the entry machine\<close>

lemma serial_token_examples:
  "serial_token ''115.30 Some text'' = Some ''115.30''"
  "serial_token ''1234 text'' = None"
  "serial_token ''12 No. something'' = Some ''12''"
  "serial_token ''12abc'' = None"
  "serial_token ''12.5abc'' = Some ''12''"
  by (simp_all add: serial_token_def char_eval)

lemma strip_examples:
  "py_strip ''115.30 Some text'' = ''115.30 Some text''"
  "py_strip ''1234 text'' = ''1234 text''"
  "py_strip ''12 No. something'' = ''12 No. something''"
  by (simp_all add: strip_eval char_eval)

lemma meta_12_no: "is_meta_line ''12 No. something''"
  by (simp add: pat_eval rx_eval char_eval)

lemma serial_token_Nil: "serial_token [] = None"
  by (simp add: serial_token_def)

lemma process_line_serial:
  "serial_token (py_strip raw) = Some m \<Longrightarrow>
   process_line crt pno True st raw
     = st\<lparr>items := items st @ [\<lparr>court = crt, serial = m, petitioner = None, respondent = None,
                                 page = pno + 1\<rparr>],
          current := Some (length (items st)), capture_resp := False\<rparr>"
  by (auto simp: process_line_def Let_def SERIAL_RE_token serial_token_Nil)

lemma process_line_no_serial:
  "\<not> il \<or> serial_token (py_strip raw) = None \<Longrightarrow>
   length (items (process_line crt pno il st raw)) = length (items st)
   \<and> current (process_line crt pno il st raw) = current st"
  by (auto simp: process_line_def Let_def SERIAL_RE_token split: option.splits)

lemma process_line_right_meta:
  "is_meta_line (py_strip raw) \<Longrightarrow> process_line crt pno False st raw = st"
  by (simp add: process_line_def Let_def)

text \<open>
  C3, as the code has it. \<open>SERIAL_RE\<close> gives exactly the serial token of the line: a
  leading run of one to three digits that ends at a word boundary, with the decimal
  sub-item when that ends at a word boundary too. A line of the left column with a serial
  token starts a new entry that bears the token; no other line starts an entry. The line
  \<open>115.30 Some text\<close> starts an entry with the serial \<open>115.30\<close>; the line
  \<open>1234 text\<close> has no serial token and starts none.
\<close>

theorem serial_marker_exact:
  "SERIAL_RE line = serial_token line
   \<and> length (items (process_line crt pno il st raw))
       = length (items st) + (if il \<and> serial_token (py_strip raw) \<noteq> None then 1 else 0)
   \<and> (il \<and> serial_token (py_strip raw) = Some m \<longrightarrow>
        process_line crt pno il st raw
          = st\<lparr>items := items st @ [\<lparr>court = crt, serial = m, petitioner = None,
                                      respondent = None, page = pno + 1\<rparr>],
               current := Some (length (items st)), capture_resp := False\<rparr>)
   \<and> process_line crt pno True st ''115.30 Some text''
       = st\<lparr>items := items st @ [\<lparr>court = crt, serial = ''115.30'', petitioner = None,
                                   respondent = None, page = pno + 1\<rparr>],
            current := Some (length (items st)), capture_resp := False\<rparr>
   \<and> SERIAL_RE ''1234 text'' = None
   \<and> length (items (process_line crt pno il st ''1234 text'')) = length (items st)
   \<and> current (process_line crt pno il st ''1234 text'') = current st"
proof (intro conjI impI)
  show "SERIAL_RE line = serial_token line" by (rule SERIAL_RE_token)
  show "length (items (process_line crt pno il st raw))
       = length (items st) + (if il \<and> serial_token (py_strip raw) \<noteq> None then 1 else 0)"
  proof (cases "il \<and> serial_token (py_strip raw) \<noteq> None")
    case True
    then obtain m where "serial_token (py_strip raw) = Some m" by auto
    then show ?thesis using True by (simp add: process_line_serial)
  next
    case False
    then show ?thesis using process_line_no_serial [of il raw crt pno st] by auto
  qed
  show "process_line crt pno il st raw
          = st\<lparr>items := items st @ [\<lparr>court = crt, serial = m, petitioner = None,
                                      respondent = None, page = pno + 1\<rparr>],
               current := Some (length (items st)), capture_resp := False\<rparr>"
    if "il \<and> serial_token (py_strip raw) = Some m"
    using that by (simp add: process_line_serial)
  show "process_line crt pno True st ''115.30 Some text''
       = st\<lparr>items := items st @ [\<lparr>court = crt, serial = ''115.30'', petitioner = None,
                                   respondent = None, page = pno + 1\<rparr>],
            current := Some (length (items st)), capture_resp := False\<rparr>"
    by (rule process_line_serial) (simp add: strip_examples serial_token_examples)
  show "SERIAL_RE ''1234 text'' = None"
    by (simp add: SERIAL_RE_token serial_token_examples)
  show "length (items (process_line crt pno il st ''1234 text'')) = length (items st)"
    "current (process_line crt pno il st ''1234 text'') = current st"
    using process_line_no_serial [of il "''1234 text''" crt pno st]
    by (simp_all add: strip_examples serial_token_examples)
qed

theorem serial_marker_exact_witness:
  "serial_token (py_strip ''115.30 Some text'') = Some ''115.30''
   \<and> process_line (Some 2) 0 True \<lparr>items = [], current = None, capture_resp = False\<rparr>
         ''115.30 Some text''
       = \<lparr>items = [\<lparr>court = Some 2, serial = ''115.30'', petitioner = None, respondent = None,
                    page = 1\<rparr>],
          current = Some 0, capture_resp = False\<rparr>"
proof -
  have tok: "serial_token (py_strip ''115.30 Some text'') = Some ''115.30''"
    by (simp add: strip_examples serial_token_examples)
  with serial_marker_exact [of "''115.30 Some text''" "Some 2" 0 True
      "\<lparr>items = [], current = None, capture_resp = False\<rparr>" "''115.30 Some text''" "''115.30''"]
  have "process_line (Some 2) 0 True \<lparr>items = [], current = None, capture_resp = False\<rparr>
         ''115.30 Some text''
       = \<lparr>items = [], current = None, capture_resp = False\<rparr>
           \<lparr>items := items \<lparr>items = [], current = None, capture_resp = False\<rparr>
                        @ [\<lparr>court = Some 2, serial = ''115.30'', petitioner = None,
                            respondent = None, page = 0 + 1\<rparr>],
            current := Some (length (items \<lparr>items = [], current = None, capture_resp = False\<rparr>)),
            capture_resp := False\<rparr>"
    by blast
  with tok show ?thesis by simp
qed

text \<open>
  The line \<open>12abc\<close> begins with two digits and is no serial marker, and of
  \<open>12.5abc\<close> the token is \<open>12\<close>, not the digits with the decimal sub-item.
\<close>

theorem serial_marker_counterexample:
  "takeWhile is_digit ''12abc'' = ''12'' \<and> SERIAL_RE ''12abc'' = None
   \<and> SERIAL_RE ''12.5abc'' = Some ''12''"
  by (simp add: SERIAL_RE_token serial_token_examples) (simp add: char_eval)

text \<open>
  C2, as the code has it. The line \<open>12 No. something\<close> is a meta line and has the
  serial token \<open>12\<close>. In the left column the serial marker is tested first: the line
  starts a new entry with the serial \<open>12\<close>. In the right column, where no serial marker
  is looked for, the line is dropped as a meta line and the state stays as it is.
\<close>

theorem serial_marker_before_meta:
  "is_meta_line ''12 No. something''
   \<and> SERIAL_RE ''12 No. something'' = Some ''12''
   \<and> process_line crt pno True st ''12 No. something''
       = st\<lparr>items := items st @ [\<lparr>court = crt, serial = ''12'', petitioner = None,
                                   respondent = None, page = pno + 1\<rparr>],
            current := Some (length (items st)), capture_resp := False\<rparr>
   \<and> process_line crt pno False st ''12 No. something'' = st"
proof (intro conjI)
  show "is_meta_line ''12 No. something''" by (rule meta_12_no)
  show "SERIAL_RE ''12 No. something'' = Some ''12''"
    by (simp add: SERIAL_RE_token serial_token_examples)
  show "process_line crt pno True st ''12 No. something''
       = st\<lparr>items := items st @ [\<lparr>court = crt, serial = ''12'', petitioner = None,
                                   respondent = None, page = pno + 1\<rparr>],
            current := Some (length (items st)), capture_resp := False\<rparr>"
    by (rule process_line_serial) (simp add: strip_examples serial_token_examples)
  show "process_line crt pno False st ''12 No. something'' = st"
    by (rule process_line_right_meta) (simp add: strip_examples meta_12_no)
qed

text \<open>In the left column the line is not dropped: it starts the entry 12.\<close>

theorem meta_first_counterexample:
  "is_meta_line ''12 No. something''
   \<and> process_line (Some 2) 0 True \<lparr>items = [], current = None, capture_resp = False\<rparr>
         ''12 No. something''
       = \<lparr>items = [\<lparr>court = Some 2, serial = ''12'', petitioner = None, respondent = None,
                    page = 1\<rparr>],
          current = Some 0, capture_resp = False\<rparr>"
  using process_line_serial [of "''12 No. something''" "''12''" "Some 2" 0
      "\<lparr>items = [], current = None, capture_resp = False\<rparr>"]
  by (simp add: strip_examples serial_token_examples meta_12_no)

section \<open>The name normalizer\<close>

subsection \<open>Upper and lower case\<close>

lemma of_upper_char: "is_lower c \<Longrightarrow> (of_char (upper_char c) :: nat) = of_char c - 32"
proof -
  assume l: "is_lower c"
  have "(of_char c :: nat) - 32 < 256"
    using nat_of_char_less_256 [of c] by arith
  then show ?thesis using l by (simp add: upper_char_def)
qed

lemma of_lower_char: "is_upper c \<Longrightarrow> (of_char (lower_char c) :: nat) = of_char c + 32"
proof -
  assume u: "is_upper c"
  then have "(of_char c :: nat) + 32 < 256"
    by (simp add: is_upper_def Let_def)
  then show ?thesis using u by (simp add: lower_char_def)
qed

lemma lower_upper_char [simp]: "lower_char (upper_char c) = lower_char c"
proof (cases "is_lower c")
  case True
  then have up: "is_upper (upper_char c)"
    using of_upper_char [of c] by (simp add: is_upper_def is_lower_def Let_def) arith
  have "(of_char (lower_char (upper_char c)) :: nat) = of_char c"
    using True of_lower_char [OF up] of_upper_char [OF True] by (simp add: is_lower_def Let_def)
  moreover have "lower_char c = c"
    using True by (simp add: lower_char_def is_upper_def is_lower_def Let_def)
  ultimately show ?thesis by (simp add: of_char_eqI)
next
  case False
  then show ?thesis by (simp add: upper_char_def)
qed

lemma upper_lower_char [simp]: "upper_char (lower_char c) = upper_char c"
proof (cases "is_upper c")
  case True
  then have lo: "is_lower (lower_char c)"
    using of_lower_char [of c] by (simp add: is_upper_def is_lower_def Let_def)
  have "(of_char (upper_char (lower_char c)) :: nat) = of_char c"
    using True of_upper_char [OF lo] of_lower_char [OF True] by simp
  moreover have "upper_char c = c"
    using True by (simp add: upper_char_def is_upper_def is_lower_def Let_def)
  ultimately show ?thesis by (simp add: of_char_eqI)
next
  case False
  then show ?thesis by (simp add: lower_char_def)
qed

lemma not_upper_lower_char [simp]: "\<not> is_upper (lower_char c)"
  using of_lower_char [of c]
  by (cases "is_upper c") (simp_all add: lower_char_def is_upper_def Let_def)

lemma lower_lower_char [simp]: "lower_char (lower_char c) = lower_char c"
  by (simp add: lower_char_def [of "lower_char c"])

lemma upper_lower [simp]: "upper (lower w) = upper w"
  by (simp add: upper_def lower_def)

lemma lower_upper [simp]: "lower (upper w) = lower w"
  by (simp add: upper_def lower_def)

lemma lower_lower [simp]: "lower (lower w) = lower w"
  by (simp add: lower_def)

subsection \<open>Tokens that the normalizer leaves as they are\<close>

lemma kept_upper_fixed: "k \<in> set kept_upper \<Longrightarrow> upper k = k \<and> k \<in> set kept"
  by (auto simp: kept_upper_def kept_def upper_def upper_char_def is_lower_def)

lemma kept_case_insensitive:
  assumes "k \<in> set kept_upper" and "lower w = lower k"
  shows "upper w \<in> set kept"
proof -
  have "upper w = upper (lower w)" by simp
  also have "\<dots> = upper (lower k)" using assms(2) by simp
  also have "\<dots> = k" using kept_upper_fixed [OF assms(1)] by simp
  finally show ?thesis using kept_upper_fixed [OF assms(1)] by simp
qed

lemma title_tokens_nth:
  "i < length (py_split (sub_spaces (py_strip s))) \<Longrightarrow>
   title_tokens s ! i = title_token i (py_split (sub_spaces (py_strip s)) ! i)"
  by (simp add: title_tokens_def nth_enumerate_eq)

lemma length_title_tokens:
  "length (title_tokens s) = length (py_split (sub_spaces (py_strip s)))"
  by (simp add: title_tokens_def)

text \<open>
  C5, as the code has it. The token at index \<open>i\<close> of the input goes to the output as it
  is written when it contains a digit, or contains a period and is equal to its
  upper-casing, or is equal up to the case of its letters to one of the abbreviations of
  \<open>kept_upper\<close>.
\<close>

theorem preserved_tokens:
  assumes "i < length (py_split (sub_spaces (py_strip s)))"
    and "w = py_split (sub_spaces (py_strip s)) ! i"
    and "list_ex is_digit w \<or> (CHR ''.'' \<in> set w \<and> upper w = w)
         \<or> (\<exists>k\<in>set kept_upper. lower w = lower k)"
  shows "title_tokens s ! i = w"
proof -
  have "preserved w"
    using assms(3) kept_case_insensitive [of _ w] by (auto simp: preserved_def)
  then have "title_token i w = w" by (simp add: title_token_def)
  then show ?thesis using assms(1,2) by (simp add: title_tokens_nth)
qed

lemma split_abc_nct: "py_split (sub_spaces (py_strip ''abc nct'')) = [''abc'', ''nct'']"
  by code_simp

lemma lower_nct: "lower ''nct'' = lower ''NCT''"
  by code_simp

theorem preserved_tokens_witness:
  "title_tokens ''abc nct'' ! 1 = ''nct'' \<and> ''nct'' \<notin> set kept"
proof -
  have "\<exists>k\<in>set kept_upper. lower ''nct'' = lower k"
    using lower_nct by (simp add: kept_upper_def)
  then have "title_tokens ''abc nct'' ! 1 = ''nct''"
    by (intro preserved_tokens) (simp_all add: split_abc_nct)
  moreover have "''nct'' \<notin> set kept" by (simp add: kept_def)
  ultimately show ?thesis by simp
qed

text \<open>
  The token \<open>T.P.(Crl.)\<close> is a member of \<open>kept\<close> and is not preserved; the token
  \<open>nct\<close> has no digit and no period, is no member of \<open>kept\<close>, and is preserved.
\<close>

lemma title_examples:
  "title_tokens ''T.P.(Crl.)'' = [''T.p.(crl.)'']"
  "smart_title ''T.P.(Crl.)'' = ''T.p.(crl.)''"
  "title_tokens ''nct'' = [''nct'']"
  "smart_title ''nct'' = ''nct''"
  by code_simp+

theorem preserved_tokens_counterexample:
  "''T.P.(Crl.)'' \<in> set kept \<and> title_tokens ''T.P.(Crl.)'' = [''T.p.(crl.)'']
   \<and> smart_title ''T.P.(Crl.)'' = ''T.p.(crl.)''
   \<and> \<not> list_ex is_digit ''nct'' \<and> CHR ''.'' \<notin> set ''nct'' \<and> ''nct'' \<notin> set kept
   \<and> title_tokens ''nct'' = [''nct''] \<and> smart_title ''nct'' = ''nct''"
  by (simp add: title_examples kept_def is_digit_def)


subsection \<open>Splitting and joining tokens\<close>

lemma py_split_unfold_Nil:
  assumes "dropWhile is_space s = []"
  shows "py_split s = []"
proof -
  have "py_split s
        = (case dropWhile is_space s of [] \<Rightarrow> []
           | c # cs \<Rightarrow> (c # takeWhile (\<lambda>x. \<not> is_space x) cs)
                        # py_split (dropWhile (\<lambda>x. \<not> is_space x) cs))"
    by (rule py_split.simps)
  then show ?thesis by (simp only: assms list.simps)
qed

lemma py_split_unfold_Cons:
  assumes "dropWhile is_space s = c # cs"
  shows "py_split s = (c # takeWhile (\<lambda>x. \<not> is_space x) cs)
                  # py_split (dropWhile (\<lambda>x. \<not> is_space x) cs)"
proof -
  have "py_split s
        = (case dropWhile is_space s of [] \<Rightarrow> []
           | c # cs \<Rightarrow> (c # takeWhile (\<lambda>x. \<not> is_space x) cs)
                        # py_split (dropWhile (\<lambda>x. \<not> is_space x) cs))"
    by (rule py_split.simps)
  then show ?thesis by (simp only: assms list.simps)
qed

lemma py_split_tokens: "w \<in> set (py_split s) \<Longrightarrow> w \<noteq> [] \<and> (\<forall>c\<in>set w. \<not> is_space c)"
proof (induction s rule: py_split.induct)
  case (1 s)
  show ?case
  proof (cases "dropWhile is_space s")
    case Nil
    have "py_split s = []" using Nil by (rule py_split_unfold_Nil)
    then show ?thesis using "1.prems" by simp
  next
    case (Cons c cs)
    have c: "\<not> is_space c"
      using hd_dropWhile [of is_space s] Cons by simp
    have "w \<in> set ((c # takeWhile (\<lambda>x. \<not> is_space x) cs)
                   # py_split (dropWhile (\<lambda>x. \<not> is_space x) cs))"
      using "1.prems" by (simp only: py_split_unfold_Cons [OF Cons])
    then have "w = c # takeWhile (\<lambda>x. \<not> is_space x) cs
          \<or> w \<in> set (py_split (dropWhile (\<lambda>x. \<not> is_space x) cs))"
      by simp
    then show ?thesis
    proof
      assume e: "w = c # takeWhile (\<lambda>x. \<not> is_space x) cs"
      have "\<forall>x\<in>set (takeWhile (\<lambda>x. \<not> is_space x) cs). \<not> is_space x"
        by (auto dest: set_takeWhileD)
      then show ?thesis using c e by simp
    next
      assume "w \<in> set (py_split (dropWhile (\<lambda>x. \<not> is_space x) cs))"
      then show ?thesis by (rule "1.IH" [OF Cons])
    qed
  qed
qed

lemma py_split_space: "is_space c \<Longrightarrow> py_split (c # r) = py_split r"
proof -
  assume c: "is_space c"
  have "py_split (c # r)
        = (case dropWhile is_space (c # r) of [] \<Rightarrow> []
           | c # cs \<Rightarrow> (c # takeWhile (\<lambda>x. \<not> is_space x) cs)
                        # py_split (dropWhile (\<lambda>x. \<not> is_space x) cs))"
    by (rule py_split.simps)
  also have "dropWhile is_space (c # r) = dropWhile is_space r" using c by simp
  also have "(case dropWhile is_space r of [] \<Rightarrow> []
           | c # cs \<Rightarrow> (c # takeWhile (\<lambda>x. \<not> is_space x) cs)
                        # py_split (dropWhile (\<lambda>x. \<not> is_space x) cs)) = py_split r"
    by (rule py_split.simps [symmetric])
  finally show ?thesis .
qed

lemma py_split_Nil: "py_split [] = []"
  by (rule py_split_unfold_Nil) simp

lemma space_is_space: "is_space CHR '' ''"
  by (simp add: is_space_def)

lemma py_split_single:
  assumes "w \<noteq> []" and "\<forall>c\<in>set w. \<not> is_space c"
  shows "py_split w = [w]"
proof -
  obtain c w' where w: "w = c # w'" using assms(1) by (cases w) auto
  have d: "dropWhile is_space w = c # w'" using assms(2) w by simp
  have e1: "takeWhile (\<lambda>x. \<not> is_space x) w' = w'" using assms(2) w by simp
  have e2: "dropWhile (\<lambda>x. \<not> is_space x) w' = []" using assms(2) w by simp
  show ?thesis
    unfolding py_split_unfold_Cons [OF d] e1 e2 py_split_Nil using w by simp
qed

lemma py_split_token_space:
  assumes "w \<noteq> []" and "\<forall>c\<in>set w. \<not> is_space c"
  shows "py_split (w @ CHR '' '' # r) = w # py_split r"
proof -
  obtain c w' where w: "w = c # w'" using assms(1) by (cases w) auto
  have d: "dropWhile is_space (w @ CHR '' '' # r) = c # (w' @ CHR '' '' # r)"
    using assms(2) w by simp
  have "takeWhile (\<lambda>x. \<not> is_space x) (w' @ CHR '' '' # r) = w'"
    using assms(2) w by (simp add: space_is_space)
  moreover have "dropWhile (\<lambda>x. \<not> is_space x) (w' @ CHR '' '' # r) = CHR '' '' # r"
    using assms(2) w by (simp add: space_is_space)
  ultimately show ?thesis
    unfolding py_split_unfold_Cons [OF d] using w by (simp add: py_split_space space_is_space)
qed

lemma py_split_join:
  "\<forall>w\<in>set ws. w \<noteq> [] \<and> (\<forall>c\<in>set w. \<not> is_space c) \<Longrightarrow> py_split (join_sp ws) = ws"
  by (induction ws rule: join_sp.induct)
     (simp_all add: py_split_Nil py_split_single py_split_token_space)

lemma join_sp_Nil_iff:
  "\<forall>w\<in>set ws. w \<noteq> [] \<Longrightarrow> join_sp ws = [] \<longleftrightarrow> ws = []"
  by (induction ws rule: join_sp.induct) simp_all

lemma hd_join_sp: "ws \<noteq> [] \<Longrightarrow> hd ws \<noteq> [] \<Longrightarrow> hd (join_sp ws) = hd (hd ws)"
  by (induction ws rule: join_sp.induct) simp_all

lemma last_join_sp:
  "ws \<noteq> [] \<Longrightarrow> \<forall>w\<in>set ws. w \<noteq> [] \<Longrightarrow> last (join_sp ws) = last (last ws)"
proof (induction ws rule: join_sp.induct)
  case (3 w v ws)
  have "join_sp (v # ws) \<noteq> []" using "3.prems" join_sp_Nil_iff [of "v # ws"] by simp
  then show ?case using 3 by simp
qed simp_all

lemma sub_spaces_token: "\<forall>c\<in>set w. \<not> is_space c \<Longrightarrow> sub_spaces (w @ r) = w @ sub_spaces r"
  by (induction w) simp_all

lemma sub_spaces_join:
  "\<forall>w\<in>set ws. w \<noteq> [] \<and> (\<forall>c\<in>set w. \<not> is_space c) \<Longrightarrow> sub_spaces (join_sp ws) = join_sp ws"
proof (induction ws rule: join_sp.induct)
  case 1
  show ?case by simp
next
  case (2 w)
  then show ?case using sub_spaces_token [of w "[]"] by simp
next
  case (3 w v ws)
  let ?J = "join_sp (v # ws)"
  have ne: "?J \<noteq> []" using "3.prems" join_sp_Nil_iff [of "v # ws"] by simp
  have "hd ?J = hd v" using "3.prems" by (intro hd_join_sp [of "v # ws", simplified]) simp
  then have "\<not> is_space (hd ?J)" using "3.prems" by (cases v) auto
  then have dw: "dropWhile is_space ?J = ?J" using ne by (cases ?J) auto
  have "sub_spaces (w @ CHR '' '' # ?J) = w @ sub_spaces (CHR '' '' # ?J)"
    using "3.prems" by (intro sub_spaces_token) simp
  also have "\<dots> = w @ CHR '' '' # sub_spaces ?J"
    using dw by (simp add: space_is_space)
  also have "sub_spaces ?J = ?J" using 3 by simp
  finally show ?case by simp
qed

lemma strip_pred_id: "t = [] \<or> (\<not> P (hd t) \<and> \<not> P (last t)) \<Longrightarrow> strip_pred P t = t"
proof (cases t)
  case Nil
  then show ?thesis by (simp add: strip_pred_def)
next
  case (Cons c cs)
  assume "t = [] \<or> (\<not> P (hd t) \<and> \<not> P (last t))"
  with Cons have h: "\<not> P c" "\<not> P (last t)" by auto
  have a: "dropWhile P t = t" using Cons h by simp
  have "hd (rev t) = last t" using Cons by (simp add: hd_rev)
  then have "dropWhile P (rev t) = rev t"
    using h(2) by (simp add: dropWhile_eq_self_iff)
  then show ?thesis using a by (simp add: strip_pred_def)
qed


subsection \<open>Normalizing a token twice\<close>

lemma nonletter_same:
  assumes nu: "\<not> is_upper b" and nl: "\<not> is_lower b" and e: "lower_char a = lower_char b"
  shows "a = b"
proof -
  have b: "lower_char b = b" using nu by (simp add: lower_char_def)
  show ?thesis
  proof (cases "is_upper a")
    case True
    then have "is_lower (lower_char a)"
      using of_lower_char [OF True] by (simp add: is_upper_def is_lower_def Let_def)
    then show ?thesis using e b nl by simp
  next
    case False
    then show ?thesis using e b by (simp add: lower_char_def)
  qed
qed

lemma space_nonletter: "is_space c \<Longrightarrow> \<not> is_upper c \<and> \<not> is_lower c"
  by (auto simp: is_space_def is_upper_def is_lower_def Let_def)

lemma punct_nonletter: "c \<in> set '',.-'' \<Longrightarrow> \<not> is_upper c \<and> \<not> is_lower c"
  by (auto simp: is_upper_def is_lower_def)

lemma class_same:
  assumes cls: "\<And>c. P c \<Longrightarrow> \<not> is_upper c \<and> \<not> is_lower c"
    and e: "lower_char a = lower_char b"
  shows "P a \<longleftrightarrow> P b"
proof
  assume a: "P a"
  have "\<not> is_upper a" "\<not> is_lower a" using cls [OF a] by simp_all
  then have "b = a" using e [symmetric] by (rule nonletter_same)
  then show "P b" using a by simp
next
  assume b: "P b"
  have "\<not> is_upper b" "\<not> is_lower b" using cls [OF b] by simp_all
  then have "a = b" using e by (rule nonletter_same)
  then show "P a" using b by simp
qed

lemma lower_capitalize: "lower (capitalize (lower w)) = lower w"
  by (cases w) (simp_all add: capitalize_def lower_def)

lemma lower_title_token: "lower (title_token i w) = lower w"
  by (simp add: title_token_def Let_def lower_capitalize)

lemma title_token_idem: "title_token i (title_token i w) = title_token i w"
proof (cases "preserved w")
  case True
  then show ?thesis by (simp add: title_token_def)
next
  case False
  define v where "v = title_token i w"
  have v: "v = (if lower w \<in> set lowers \<and> i \<noteq> 0 then lower w else capitalize (lower w))"
    using False by (simp add: v_def title_token_def Let_def)
  have lv: "lower v = lower w" by (simp add: v_def lower_title_token)
  have "title_token i v = v"
  proof (cases "preserved v")
    case True
    then show ?thesis by (simp add: title_token_def)
  next
    case False
    then have "title_token i v
          = (if lower v \<in> set lowers \<and> i \<noteq> 0 then lower v else capitalize (lower v))"
      by (simp add: title_token_def Let_def)
    then show ?thesis using v lv by simp
  qed
  then show ?thesis by (simp add: v_def)
qed

lemma lower_eq_length: "lower v = lower w \<Longrightarrow> length v = length w"
  unfolding lower_def by (rule map_eq_imp_length_eq)

lemma lower_eq_nth: "lower v = lower w \<Longrightarrow> j < length w \<Longrightarrow> lower_char (v ! j) = lower_char (w ! j)"
proof -
  assume e: "lower v = lower w" and j: "j < length w"
  have "lower v ! j = lower w ! j" using e by simp
  then show ?thesis using j lower_eq_length [OF e] by (simp add: lower_def)
qed

lemma lower_eq_class:
  assumes cls: "\<And>c. P c \<Longrightarrow> \<not> is_upper c \<and> \<not> is_lower c"
    and e: "lower v = lower w" and j: "j < length w"
  shows "P (v ! j) \<longleftrightarrow> P (w ! j)"
  using cls lower_eq_nth [OF e j] by (rule class_same)

lemma title_token_shape:
  assumes "w \<noteq> []" and "\<forall>c\<in>set w. \<not> is_space c"
  shows "title_token i w \<noteq> [] \<and> (\<forall>c\<in>set (title_token i w). \<not> is_space c)"
proof -
  let ?v = "title_token i w"
  have e: "lower ?v = lower w" by (rule lower_title_token)
  have len: "length ?v = length w" using e by (rule lower_eq_length)
  have "\<not> is_space (?v ! j)" if "j < length w" for j
    using lower_eq_class [of is_space ?v w j, OF space_nonletter e that] assms(2) that by simp
  then show ?thesis using assms(1) len by (auto simp: in_set_conv_nth)
qed

lemma title_token_hd:
  assumes "w \<noteq> []"
  shows "hd (title_token i w) \<in> set '',.-'' \<longleftrightarrow> hd w \<in> set '',.-''"
proof -
  let ?v = "title_token i w"
  have e: "lower ?v = lower w" by (rule lower_title_token)
  have "?v \<noteq> []" using assms lower_eq_length [OF e] by auto
  then have "hd ?v = ?v ! 0" "hd w = w ! 0" using assms by (simp_all add: hd_conv_nth)
  then show ?thesis
    using lower_eq_class [of "\<lambda>c. c \<in> set '',.-''" ?v w 0, OF punct_nonletter e] assms by simp
qed

lemma title_token_last:
  assumes "w \<noteq> []"
  shows "last (title_token i w) \<in> set '',.-'' \<longleftrightarrow> last w \<in> set '',.-''"
proof -
  let ?v = "title_token i w"
  have e: "lower ?v = lower w" by (rule lower_title_token)
  have len: "length ?v = length w" using e by (rule lower_eq_length)
  then have "?v \<noteq> []" using assms by auto
  then have "last ?v = ?v ! (length w - 1)" "last w = w ! (length w - 1)"
    using assms len by (simp_all add: last_conv_nth)
  then show ?thesis
    using lower_eq_class [of "\<lambda>c. c \<in> set '',.-''" ?v w "length w - 1", OF punct_nonletter e] assms
    by simp
qed


subsection \<open>Normalizing a name twice\<close>

lemma title_tokens_join:
  assumes ok: "\<forall>w\<in>set out. w \<noteq> [] \<and> (\<forall>c\<in>set w. \<not> is_space c)"
    and idem: "\<forall>i<length out. title_token i (out ! i) = out ! i"
  shows "title_tokens (join_sp out) = out"
proof -
  let ?J = "join_sp out"
  have edge: "?J = [] \<or> (\<not> is_space (hd ?J) \<and> \<not> is_space (last ?J))"
  proof (cases "out = []")
    case True
    then show ?thesis by simp
  next
    case False
    have ne: "\<forall>w\<in>set out. w \<noteq> []" using ok by simp
    have "hd out \<in> set out" "last out \<in> set out" using False by simp_all
    then have h: "hd out \<noteq> []" "last out \<noteq> []"
        "\<not> is_space (hd (hd out))" "\<not> is_space (last (last out))"
      using ok by (simp_all add: hd_in_set last_in_set)
    have "hd ?J = hd (hd out)" using False h(1) by (rule hd_join_sp)
    moreover have "last ?J = last (last out)" using False ne by (rule last_join_sp)
    ultimately show ?thesis using h by simp
  qed
  have "py_strip ?J = ?J" unfolding py_strip_def using edge by (rule strip_pred_id)
  moreover have "sub_spaces ?J = ?J" using ok by (rule sub_spaces_join)
  moreover have "py_split ?J = out" using ok by (rule py_split_join)
  ultimately have "title_tokens ?J = map (\<lambda>(i, w). title_token i w) (enumerate 0 out)"
    by (simp add: title_tokens_def)
  also have "\<dots> = out"
    using idem by (intro nth_equalityI) (simp_all add: nth_enumerate_eq)
  finally show ?thesis .
qed

text \<open>
  C4, as the code has it. The normalizer is a function of its input alone. Normalizing
  its result again changes nothing when the first token of the input does not begin, and
  the last token does not end, with a comma, a period or a hyphen.
\<close>

theorem smart_title_idempotent:
  assumes "edge_free s"
  shows "smart_title (smart_title s) = smart_title s"
proof -
  define ws where "ws = py_split (sub_spaces (py_strip s))"
  define out where "out = title_tokens s"
  define J where "J = join_sp out"
  have len: "length out = length ws"
    by (simp add: out_def ws_def length_title_tokens)
  have nth: "out ! i = title_token i (ws ! i)" if "i < length ws" for i
    using that by (simp add: out_def ws_def title_tokens_nth)
  have ok_ws: "w \<noteq> [] \<and> (\<forall>c\<in>set w. \<not> is_space c)" if "w \<in> set ws" for w
    using that unfolding ws_def by (rule py_split_tokens)
  have ok: "\<forall>w\<in>set out. w \<noteq> [] \<and> (\<forall>c\<in>set w. \<not> is_space c)"
  proof
    fix w
    assume "w \<in> set out"
    then obtain i where i: "i < length ws" "w = out ! i"
      using len by (auto simp: in_set_conv_nth)
    have "ws ! i \<in> set ws" using i(1) by simp
    then show "w \<noteq> [] \<and> (\<forall>c\<in>set w. \<not> is_space c)"
      using ok_ws [of "ws ! i"] title_token_shape [of "ws ! i" i] i nth [of i] by simp
  qed
  have idem: "\<forall>i<length out. title_token i (out ! i) = out ! i"
    using len nth by (simp add: title_token_idem)
  have edge: "J = [] \<or> (hd J \<notin> set '' ,.-'' \<and> last J \<notin> set '' ,.-'')"
  proof (cases ws)
    case Nil
    then have "out = []" using len by simp
    then show ?thesis by (simp add: J_def)
  next
    case (Cons w0 ws')
    then have out_ne: "out \<noteq> []" using len by auto
    have ne: "\<forall>w\<in>set out. w \<noteq> []" using ok by simp
    have wne: "w0 \<noteq> []" "last ws \<noteq> []"
      using ok_ws [of w0] ok_ws [of "last ws"] Cons by simp_all
    from assms Cons have e: "hd w0 \<notin> set '',.-''" "last (last ws) \<notin> set '',.-''"
      by (simp_all add: edge_free_def ws_def [symmetric])
    have hd_out: "hd out = title_token 0 w0"
      using nth [of 0] Cons out_ne by (simp add: hd_conv_nth)
    have last_out: "last out = title_token (length ws - 1) (last ws)"
      using nth [of "length ws - 1"] Cons out_ne len by (simp add: last_conv_nth)
    have "hd out \<in> set out" "last out \<in> set out" using out_ne by simp_all
    then have sp: "hd out \<noteq> []" "\<not> is_space (hd (hd out))" "\<not> is_space (last (last out))"
      using ok by (simp_all add: hd_in_set last_in_set)
    have a: "hd (hd out) \<notin> set '',.-''"
      unfolding hd_out using title_token_hd [OF wne(1), of 0] e(1) by simp
    have b: "last (last out) \<notin> set '',.-''"
      unfolding last_out using title_token_last [OF wne(2), of "length ws - 1"] e(2) by simp
    have "hd J = hd (hd out)" unfolding J_def using out_ne sp(1) by (rule hd_join_sp)
    moreover have "last J = last (last out)" unfolding J_def using out_ne ne by (rule last_join_sp)
    moreover have "hd (hd out) \<noteq> CHR '' ''" "last (last out) \<noteq> CHR '' ''"
      using sp space_is_space by auto
    ultimately show ?thesis using a b by simp
  qed
  have strip: "strip_chars '' ,.-'' J = J"
    unfolding strip_chars_def using edge by (rule strip_pred_id)
  have first: "smart_title s = J"
    using strip by (simp add: smart_title_def J_def out_def)
  have "title_tokens J = out"
    unfolding J_def using ok idem by (rule title_tokens_join)
  then have "smart_title J = J"
    using strip by (simp add: smart_title_def J_def)
  then show ?thesis using first by simp
qed

lemma idem_examples:
  "edge_free ''abc ltd''" "smart_title ''abc ltd'' = ''Abc Ltd''"
  "smart_title ''ltd.'' = ''ltd''" "smart_title ''ltd'' = ''Ltd''"
  "smart_title ''- and'' = ''and''" "smart_title ''and'' = ''And''"
  by code_simp+

theorem smart_title_idempotent_witness:
  "edge_free ''abc ltd'' \<and> smart_title ''abc ltd'' = ''Abc Ltd''
   \<and> smart_title (smart_title ''abc ltd'') = ''Abc Ltd''"
  using smart_title_idempotent [of "''abc ltd''"] by (simp add: idem_examples)

text \<open>
  Two inputs on which a second normalization changes the result: a final period that the
  first one strips from a kept abbreviation, and a leading hyphen that it strips from in
  front of a connective word.
\<close>

theorem smart_title_not_idempotent:
  "smart_title ''ltd.'' = ''ltd'' \<and> smart_title (smart_title ''ltd.'') = ''Ltd''
   \<and> smart_title ''- and'' = ''and'' \<and> smart_title (smart_title ''- and'') = ''And''"
  by (simp add: idem_examples)

section \<open>The dump of the index in the order of court and serial\<close>

subsection \<open>Decimal numerals\<close>

lemma digit_char: "d < 10 \<Longrightarrow> is_digit (char_of (48 + d :: nat)) \<and> (of_char (char_of (48 + d)) :: nat) = 48 + d"
  by (simp add: is_digit_def Let_def)

lemma str_nat_unfold:
  "str_nat n = (if n < 10 then [char_of (48 + n)] else str_nat (n div 10) @ [char_of (48 + n mod 10)])"
  by (rule str_nat.simps)

lemma str_nat_digits: "str_nat n \<noteq> [] \<and> (\<forall>c\<in>set (str_nat n). is_digit c)"
proof (induction n rule: str_nat.induct)
  case (1 n)
  show ?case
  proof (cases "n < 10")
    case True
    then show ?thesis using digit_char [of n] by (simp add: str_nat_unfold [of n])
  next
    case False
    have "n mod 10 < 10" by simp
    then have "is_digit (char_of (48 + n mod 10))" using digit_char by blast
    then show ?thesis using False "1.IH" by (simp add: str_nat_unfold [of n])
  qed
qed

lemma foldl_digits_snoc:
  "foldl (\<lambda>n c. 10 * n + ((of_char c :: nat) - 48)) 0 (xs @ [c])
     = 10 * foldl (\<lambda>n c. 10 * n + ((of_char c :: nat) - 48)) 0 xs + ((of_char c :: nat) - 48)"
  by simp

lemma int_of_digits_str_nat: "int_of_digits (str_nat n) = int n"
proof (induction n rule: str_nat.induct)
  case (1 n)
  show ?case
  proof (cases "n < 10")
    case True
    then show ?thesis
      using digit_char [of n] by (simp add: str_nat_unfold [of n] int_of_digits_def)
  next
    case False
    have d: "(of_char (char_of (48 + n mod 10)) :: nat) = 48 + n mod 10"
      using digit_char [of "n mod 10"] by simp
    have "foldl (\<lambda>n c. 10 * n + ((of_char c :: nat) - 48)) 0 (str_nat (n div 10)) = n div 10"
      using "1.IH" False by (simp add: int_of_digits_def)
    then have "foldl (\<lambda>n c. 10 * n + ((of_char c :: nat) - 48)) 0 (str_nat n)
          = 10 * (n div 10) + n mod 10"
      using False d by (simp add: str_nat_unfold [of n])
    then show ?thesis by (simp add: int_of_digits_def)
  qed
qed

lemma digit_not_special:
  "is_digit c \<Longrightarrow> c \<noteq> CHR ''_'' \<and> c \<noteq> CHR ''-'' \<and> c \<noteq> CHR ''+'' \<and> c \<noteq> CHR ''/'' \<and> \<not> is_space c"
  by (auto simp: is_digit_def is_space_def Let_def)

lemma digits_ok_digits: "xs \<noteq> [] \<Longrightarrow> \<forall>c\<in>set xs. is_digit c \<Longrightarrow> digits_ok xs"
  by (induction xs rule: digits_ok.induct) (auto simp: digit_not_special)

lemma filter_digits: "\<forall>c\<in>set xs. is_digit c \<Longrightarrow> filter (\<lambda>c. c \<noteq> CHR ''_'') xs = xs"
  by (induction xs) (auto simp: digit_not_special)

lemma py_int_str_int: "py_int (str_int i) = Some i"
proof -
  define n where "n = nat \<bar>i\<bar>"
  define ds where "ds = str_nat n"
  have ds: "ds \<noteq> []" "\<forall>c\<in>set ds. is_digit c"
    using str_nat_digits [of n] by (simp_all add: ds_def)
  have hd: "is_digit (hd ds)" "is_digit (last ds)" using ds by simp_all
  have val: "int_of_digits (filter (\<lambda>c. c \<noteq> CHR ''_'') ds) = int n"
    using ds by (simp add: filter_digits ds_def int_of_digits_str_nat)
  show ?thesis
  proof (cases "i < 0")
    case False
    then have s: "str_int i = ds" by (simp add: str_int_def ds_def n_def)
    have "py_strip ds = ds"
      unfolding py_strip_def using hd ds(1) by (intro strip_pred_id) (simp add: digit_not_special)
    moreover have "hd ds \<noteq> CHR ''-''" "hd ds \<noteq> CHR ''+''" using hd by (simp_all add: digit_not_special)
    ultimately show ?thesis
      using False ds val by (simp add: py_int_def s Let_def digits_ok_digits n_def)
  next
    case True
    then have s: "str_int i = CHR ''-'' # ds" by (simp add: str_int_def ds_def n_def)
    have "\<not> is_space CHR ''-''" by (simp add: is_space_def)
    then have "py_strip (CHR ''-'' # ds) = CHR ''-'' # ds"
      unfolding py_strip_def using hd ds(1) by (intro strip_pred_id) (simp add: digit_not_special)
    then show ?thesis
      using True ds val by (simp add: py_int_def s Let_def digits_ok_digits n_def)
  qed
qed

lemma digits_no_slash: "\<forall>c\<in>set xs. is_digit c \<Longrightarrow> CHR ''/'' \<notin> set xs"
  using digit_not_special [of "CHR ''/''"] by blast

lemma str_nat_no_slash: "CHR ''/'' \<notin> set (str_nat n)"
  using str_nat_digits [of n] by (intro digits_no_slash) simp

lemma str_int_no_slash: "CHR ''/'' \<notin> set (str_int i)"
  by (simp add: str_int_def str_nat_no_slash)

lemma split_on_no_sep: "sep \<notin> set s \<Longrightarrow> split_on sep s = [s]"
  by (induction s) auto

lemma split_on_key:
  "CHR ''/'' \<notin> set a \<Longrightarrow> CHR ''/'' \<notin> set b \<Longrightarrow> split_on CHR ''/'' (a @ CHR ''/'' # b) = [a, b]"
  by (induction a) (auto simp: split_on_no_sep)

subsection \<open>Serial tokens are decimal literals\<close>

lemma decimal_literal_digits:
  assumes "ds \<noteq> []" and "\<forall>c\<in>set ds. is_digit c"
  shows "decimal_literal ds"
proof -
  have e: "takeWhile is_digit ds = ds" "dropWhile is_digit ds = []"
    using assms(2) by simp_all
  show ?thesis unfolding decimal_literal_def Let_def e using assms(1) by simp
qed

lemma decimal_literal_frac:
  assumes "ds \<noteq> []" "\<forall>c\<in>set ds. is_digit c" "fs \<noteq> []" "\<forall>c\<in>set fs. is_digit c"
  shows "decimal_literal (ds @ CHR ''.'' # fs)"
proof -
  have nd: "\<not> is_digit CHR ''.''" by (simp add: is_digit_def)
  have e: "takeWhile is_digit (ds @ CHR ''.'' # fs) = ds"
    "dropWhile is_digit (ds @ CHR ''.'' # fs) = CHR ''.'' # fs"
    using assms(2) nd by simp_all
  show ?thesis
    unfolding decimal_literal_def Let_def e using assms by (simp add: list_all_iff)
qed

lemma serial_token_literal:
  assumes "serial_token line = Some m"
  shows "decimal_literal m \<and> CHR ''/'' \<notin> set m"
proof -
  define t where "t = dropWhile is_space line"
  define ds where "ds = takeWhile is_digit t"
  define r where "r = dropWhile is_digit t"
  have dsd: "\<forall>c\<in>set ds. is_digit c" by (auto simp: ds_def dest: set_takeWhileD)
  from assms have ne: "ds \<noteq> []"
    by (auto simp: serial_token_def Let_def t_def ds_def split: if_splits)
  have cases: "m = ds \<or> (\<exists>r'. r = CHR ''.'' # r' \<and> takeWhile is_digit r' \<noteq> []
                              \<and> m = ds @ CHR ''.'' # takeWhile is_digit r')"
    using assms
    by (auto simp: serial_token_def Let_def t_def [symmetric] ds_def [symmetric] r_def [symmetric]
             split: if_splits list.splits)
  then show ?thesis
  proof
    assume "m = ds"
    then show ?thesis using ne dsd by (simp add: decimal_literal_digits digits_no_slash)
  next
    assume "\<exists>r'. r = CHR ''.'' # r' \<and> takeWhile is_digit r' \<noteq> []
                              \<and> m = ds @ CHR ''.'' # takeWhile is_digit r'"
    then obtain r' where r': "takeWhile is_digit r' \<noteq> []" "m = ds @ CHR ''.'' # takeWhile is_digit r'"
      by blast
    have fsd: "\<forall>c\<in>set (takeWhile is_digit r'). is_digit c" by (auto dest: set_takeWhileD)
    have "decimal_literal m"
      unfolding r'(2) using ne dsd r'(1) fsd by (rule decimal_literal_frac)
    moreover have "CHR ''/'' \<notin> set m"
      using digits_no_slash [OF dsd] digits_no_slash [OF fsd] by (simp add: r'(2))
    ultimately show ?thesis by simp
  qed
qed


subsection \<open>The serials of the items\<close>

lemma list_all_update_in:
  "list_all P xs \<Longrightarrow> (i < length xs \<Longrightarrow> P x) \<Longrightarrow> list_all P (xs[i := x])"
  by (induction xs arbitrary: i) (auto split: nat.splits)

lemma items_serial_line:
  assumes "list_all (\<lambda>e. decimal_literal (serial e) \<and> CHR ''/'' \<notin> set (serial e)) (items st)"
  shows "list_all (\<lambda>e. decimal_literal (serial e) \<and> CHR ''/'' \<notin> set (serial e))
           (items (process_line crt pno il st raw))"
proof -
  let ?S = "\<lambda>e. decimal_literal (serial e) \<and> CHR ''/'' \<notin> set (serial e)"
  have upd: "list_all ?S ((items st)[i := x])"
    if "serial x = serial (items st ! i)" for i x
    using assms
  proof (rule list_all_update_in)
    assume "i < length (items st)"
    then have "?S (items st ! i)" using assms by (simp add: list_all_length)
    then show "?S x" using that by simp
  qed
  have new: "list_all ?S (items st @ [\<lparr>court = crt, serial = m, petitioner = None,
                                       respondent = None, page = pno + 1\<rparr>])"
    if "SERIAL_RE (py_strip raw) = Some m" for m
    using assms serial_token_literal [of "py_strip raw" m] that
    by (simp add: SERIAL_RE_token)
  show ?thesis
    using assms upd new
    by (auto simp: process_line_def Let_def split: option.splits)
qed

lemma items_serial_lines:
  "list_all (\<lambda>e. decimal_literal (serial e) \<and> CHR ''/'' \<notin> set (serial e)) (items st) \<Longrightarrow>
   list_all (\<lambda>e. decimal_literal (serial e) \<and> CHR ''/'' \<notin> set (serial e))
     (items (foldl (process_line crt pno il) st ls))"
  by (induction ls arbitrary: st) (simp_all add: items_serial_line)

lemma items_serial_blocks:
  "list_all (\<lambda>e. decimal_literal (serial e) \<and> CHR ''/'' \<notin> set (serial e)) (items st) \<Longrightarrow>
   list_all (\<lambda>e. decimal_literal (serial e) \<and> CHR ''/'' \<notin> set (serial e))
     (items (foldl (process_block crt pno sx) st bs))"
proof (induction bs arbitrary: st)
  case Nil
  then show ?case by simp
next
  case (Cons b bs)
  have "list_all (\<lambda>e. decimal_literal (serial e) \<and> CHR ''/'' \<notin> set (serial e))
          (items (process_block crt pno sx st b))"
    using Cons.prems by (cases b) (simp add: process_block_def items_serial_lines)
  then show ?case using Cons.IH by simp
qed

lemma items_serial_page:
  "list_all (\<lambda>e. decimal_literal (serial e) \<and> CHR ''/'' \<notin> set (serial e)) (fst acc) \<Longrightarrow>
   list_all (\<lambda>e. decimal_literal (serial e) \<and> CHR ''/'' \<notin> set (serial e))
     (fst (process_page acc np))"
  by (cases acc; cases np) (simp add: process_page_def Let_def items_serial_blocks)

lemma items_serial_pages:
  "list_all (\<lambda>e. decimal_literal (serial e) \<and> CHR ''/'' \<notin> set (serial e)) (fst acc) \<Longrightarrow>
   list_all (\<lambda>e. decimal_literal (serial e) \<and> CHR ''/'' \<notin> set (serial e))
     (fst (foldl process_page acc nps))"
  by (induction nps arbitrary: acc) (simp_all add: items_serial_page)

lemma serial_items:
  "e \<in> set (all_items doc) \<Longrightarrow> decimal_literal (serial e) \<and> CHR ''/'' \<notin> set (serial e)"
  using items_serial_pages [of "([], None)" "enumerate 0 doc"]
  by (simp add: all_items_def parse_loop_def list_all_iff)

subsection \<open>The sort key of a key of the index\<close>

lemma key_fn_entry:
  assumes "court it = Some c" and "decimal_literal (serial it)" and "CHR ''/'' \<notin> set (serial it)"
    and "fl (serial it) = Some f"
  shows "key_fn fl (entry_key it) = Inr (c, f)"
proof -
  have "split_on CHR ''/'' (entry_key it) = [str_int c, serial it]"
    using assms(1,3) str_int_no_slash [of c]
    by (simp add: entry_key_def str_court_def split_on_key)
  then show ?thesis using assms(4) by (simp add: key_fn_def py_int_str_int)
qed

lemma build_index_from_set:
  "set (build_index_from idx its) \<subseteq> set idx \<union> (\<lambda>it. (entry_key it, it)) ` set its"
proof (induction its arbitrary: idx)
  case Nil
  show ?case by simp
next
  case (Cons it its)
  show ?case using Cons.IH [of "if map_of idx (entry_key it) = None then idx @ [(entry_key it, it)] else idx"]
    by (auto split: if_splits)
qed

lemma build_index_set: "(k, it) \<in> set (build_index its) \<Longrightarrow> it \<in> set its \<and> k = entry_key it"
  using build_index_from_set [of "[]" its] by (auto simp: build_index_def)

lemma keyed_total:
  assumes "\<forall>k\<in>set ks. \<exists>v. key_fn fl k = Inr v"
  shows "\<exists>vs. keyed fl ks = Inr vs \<and> map snd vs = ks \<and> (\<forall>p\<in>set vs. key_fn fl (snd p) = Inr (fst p))"
  using assms
proof (induction ks)
  case Nil
  show ?case by simp
next
  case (Cons k ks)
  from Cons.prems obtain v where v: "key_fn fl k = Inr v" by auto
  from Cons obtain vs where vs: "keyed fl ks = Inr vs" "map snd vs = ks"
      "\<forall>p\<in>set vs. key_fn fl (snd p) = Inr (fst p)"
    by auto
  show ?case
    using v vs by (intro exI [of _ "(v, k) # vs"]) simp
qed

lemma print_keys_total:
  "\<forall>k\<in>set ks. map_of idx k \<noteq> None \<Longrightarrow> print_keys idx ks = Inr (map (lookup_line idx) ks)"
  by (induction ks) (auto simp: lookup_line_def)


subsection \<open>The order of the dump\<close>

lemma parse_entry_key:
  assumes fl: "\<forall>s. decimal_literal s \<longrightarrow> fl s \<noteq> None"
    and it: "it \<in> set (parse_pdf doc)"
  shows "\<exists>c f. court it = Some c \<and> fl (serial it) = Some f \<and> key_fn fl (entry_key it) = Inr (c, f)"
proof -
  from it have items: "it \<in> set (all_items doc)" and comp: "is_complete it"
    by (simp_all add: parse_pdf_def)
  from comp obtain c where c: "court it = Some c"
    by (auto simp: is_complete_def truthy_int_def split: option.splits)
  have lit: "decimal_literal (serial it)" "CHR ''/'' \<notin> set (serial it)"
    using serial_items [OF items] by simp_all
  then obtain f where f: "fl (serial it) = Some f" using fl by auto
  have "key_fn fl (entry_key it) = Inr (c, f)"
    using c lit f by (rule key_fn_entry)
  then show ?thesis using c f by simp
qed

text \<open>
  C9. For the index built from the parsed entries of any document, and any reading
  \<open>fl\<close> of \<open>float\<close> that is defined on the decimal literals, the sort of the keys
  raises no error. The keys come out as the keys of the index, each once; the key of every
  one of them is the pair of the court of its entry as an integer and the serial of its
  entry under \<open>fl\<close>, and these pairs are in ascending order: each is less than or equal
  to all that follow. The dump prints the formatted entries in that order.
\<close>

theorem dump_all_sorted:
  assumes "\<forall>s. decimal_literal s \<longrightarrow> fl s \<noteq> None"
  shows "\<exists>ks vals.
          sorted_keys fl (build_index (parse_pdf doc)) = Inr ks
          \<and> set ks = fst ` set (build_index (parse_pdf doc)) \<and> distinct ks
          \<and> map (key_fn fl) ks = map Inr vals \<and> sorted vals
          \<and> (\<forall>i<length ks. \<exists>it. map_of (build_index (parse_pdf doc)) (ks ! i) = Some it
                 \<and> court it = Some (fst (vals ! i)) \<and> fl (serial it) = Some (snd (vals ! i)))
          \<and> dump_all fl (build_index (parse_pdf doc))
              = Inr (map (lookup_line (build_index (parse_pdf doc))) ks)"
proof -
  define idx where "idx = build_index (parse_pdf doc)"
  define ks0 where "ks0 = map fst idx"
  have dist0: "distinct ks0"
    using distinct_build_index_from [of "[]" "parse_pdf doc"] by (simp add: ks0_def idx_def build_index_def)
  have key_ok: "\<exists>it c f. map_of idx k = Some it \<and> court it = Some c \<and> fl (serial it) = Some f
                  \<and> key_fn fl k = Inr (c, f)"
    if "k \<in> set ks0" for k
  proof -
    from that obtain it0 where "(k, it0) \<in> set idx" by (auto simp: ks0_def)
    then obtain it where m: "map_of idx k = Some it"
      by (cases "map_of idx k") (auto simp: map_of_eq_None_iff image_iff)
    then have "(k, it) \<in> set idx" by (rule map_of_SomeD)
    then have "it \<in> set (parse_pdf doc)" "k = entry_key it"
      using build_index_set [of k it "parse_pdf doc"] by (simp_all add: idx_def)
    then show ?thesis using parse_entry_key [OF assms, of it doc] m by auto
  qed
  then have "\<forall>k\<in>set ks0. \<exists>v. key_fn fl k = Inr v" by blast
  then obtain vs where vs: "keyed fl ks0 = Inr vs" "map snd vs = ks0"
      "\<forall>p\<in>set vs. key_fn fl (snd p) = Inr (fst p)"
    using keyed_total by blast
  define sv where "sv = sort_key fst vs"
  define ks where "ks = map snd sv"
  define vals where "vals = map fst sv"
  have sk: "sorted_keys fl idx = Inr ks"
    using vs(1) by (simp add: sorted_keys_def ks0_def ks_def sv_def)
  have set_sv: "set sv = set vs" by (simp add: sv_def)
  have set_ks: "set ks = set ks0"
    using set_sv vs(2) by (metis ks_def set_map)
  have "length ks = length ks0"
    using vs(2) by (metis ks_def sv_def length_map length_sort)
  then have "card (set ks) = length ks"
    using set_ks dist0 by (simp add: distinct_card)
  then have dist: "distinct ks" by (rule card_distinct)
  have keys: "map (key_fn fl) ks = map Inr vals"
    using vs(3) set_sv by (simp add: ks_def vals_def)
  have sorted: "sorted vals"
    by (simp add: vals_def sv_def)
  have ent: "\<exists>it. map_of idx (ks ! i) = Some it
                 \<and> court it = Some (fst (vals ! i)) \<and> fl (serial it) = Some (snd (vals ! i))"
    if "i < length ks" for i
  proof -
    have "ks ! i \<in> set ks0" using that set_ks by (metis nth_mem)
    then obtain it c f where it: "map_of idx (ks ! i) = Some it" "court it = Some c"
        "fl (serial it) = Some f" "key_fn fl (ks ! i) = Inr (c, f)"
      using key_ok by blast
    have "map (key_fn fl) ks ! i = map Inr vals ! i" using keys by simp
    then have "key_fn fl (ks ! i) = Inr (vals ! i)"
      using that by (simp add: ks_def vals_def)
    then have "vals ! i = (c, f)" using it(4) by simp
    then show ?thesis using it by simp
  qed
  have "\<forall>k\<in>set ks. map_of idx k \<noteq> None"
    using set_ks key_ok by auto
  then have "print_keys idx ks = Inr (map (lookup_line idx) ks)" by (rule print_keys_total)
  then have dump: "dump_all fl idx = Inr (map (lookup_line idx) ks)"
    using sk by (simp add: dump_all_def)
  have "set ks = fst ` set idx" using set_ks by (simp add: ks0_def)
  then show ?thesis
    using sk dist keys sorted ent dump unfolding idx_def [symmetric] by blast
qed


lemma lines_d:
  "py_strip ''10'' = ''10''" "py_strip ''9.5'' = ''9.5''"
  "SERIAL_RE ''10'' = Some ''10''" "SERIAL_RE ''9.5'' = Some ''9.5''"
  by (simp_all add: strip_eval SERIAL_RE_token serial_token_def char_eval)

lemma page_d_fields:
  "detect_court_number ex_page_d = Some 2"
  "page_blocks ex_page_d = [(0, 0, 1, 1, ''10'' @ [CHR 0x0A] @ ''A'' @ [CHR 0x0A] @ ''versus''
                                               @ [CHR 0x0A] @ ''B'' @ [CHR 0x0A] @ ''9.5''
                                               @ [CHR 0x0A] @ ''D'' @ [CHR 0x0A] @ ''versus''
                                               @ [CHR 0x0A] @ ''E'')]"
  "page_words ex_page_d = []" "rect_width ex_page_d = 100"
  by (simp_all add: detect_court_number_def int_of_digits_def ex_page_d_def pat_eval rx_eval
        char_eval)

lemma parse_page_d: "parse_pdf [ex_page_d] = [ex_entry10, ex_entry9]"
  by (simp add: parse_pdf_def all_items_def parse_loop_def enumerate_eq_zip upt_rec page_eval
        lines_d page_d_fields is_complete_def truthy_str_def ex_entry10_def ex_entry9_def)

lemma index_page_d:
  "build_index [ex_entry10, ex_entry9] = [(''2/10'', ex_entry10), (''2/9.5'', ex_entry9)]"
  by (simp add: build_index_def entry_key_def str_court_def str_int_def str_nat.simps [of 2]
        char_of_def bit_Suc_0_iff ex_entry10_def ex_entry9_def)

lemma sorted_page_d:
  "sorted_keys float_exact [(''2/10'', ex_entry10), (''2/9.5'', ex_entry9)] = Inr [''2/9.5'', ''2/10'']"
  by code_simp

lemma lines_page_d:
  "lookup_line [(''2/10'', ex_entry10), (''2/9.5'', ex_entry9)] ''2/9.5'' = ''2/9.5 - D Vs E''"
  "lookup_line [(''2/10'', ex_entry10), (''2/9.5'', ex_entry9)] ''2/10'' = ''2/10 - A Vs B''"
  by code_simp+

theorem dump_all_sorted_witness:
  "map fst (build_index (parse_pdf [ex_page_d])) = [''2/10'', ''2/9.5'']
   \<and> sorted_keys float_exact (build_index (parse_pdf [ex_page_d])) = Inr [''2/9.5'', ''2/10'']
   \<and> dump_all float_exact (build_index (parse_pdf [ex_page_d]))
       = Inr [''2/9.5 - D Vs E'', ''2/10 - A Vs B'']"
proof -
  have fl: "\<forall>s. decimal_literal s \<longrightarrow> float_exact s \<noteq> None"
    by (simp add: float_exact_def Let_def)
  obtain ks where ks: "sorted_keys float_exact (build_index (parse_pdf [ex_page_d])) = Inr ks"
      "dump_all float_exact (build_index (parse_pdf [ex_page_d]))
         = Inr (map (lookup_line (build_index (parse_pdf [ex_page_d]))) ks)"
    using dump_all_sorted [OF fl, of "[ex_page_d]"] by blast
  from ks(1) have "ks = [''2/9.5'', ''2/10'']"
    by (simp add: parse_page_d index_page_d sorted_page_d)
  with ks show ?thesis
    by (simp add: parse_page_d index_page_d lines_page_d)
qed

end
